theory Spec2Isabelle
  imports Main
begin

text \<open>
  A model of the scanner of \<open>app.py\<close> (rule 118, TRANSLATE with the obsolete CODE PAGE
  option): the helpers, the regular expressions and \<open>scan_unit\<close>, followed by the
  properties of the specification that were checked against them.
\<close>

section \<open>Texts and character classes\<close>

text \<open>
  A Python \<open>str\<close> is modelled as a \<open>string\<close>: one \<open>char\<close> per code point, so the
  model covers texts over the code points 0..255 (ASCII and Latin-1). On that range the
  classes below are the ones Python's \<open>re\<close> and \<open>str.strip\<close> use for \<open>str\<close> patterns:
  \<open>\s\<close> is 9..13, 28..32, 133 and 160; \<open>\w\<close> is the ASCII letters, digits and underscore
  together with the Latin-1 letters and numeric characters. Under \<open>(?i)\<close> an ASCII
  letter of a pattern matches exactly its two ASCII cases on that range.
\<close>

definition newline :: char where
  "newline = CHR 0x0A"

definition is_space :: "char \<Rightarrow> bool" where
  "is_space c = (let n = (of_char c :: nat) in
     (9 \<le> n \<and> n \<le> 13) \<or> (28 \<le> n \<and> n \<le> 32) \<or> n = 133 \<or> n = 160)"

definition is_word :: "char \<Rightarrow> bool" where
  "is_word c = (let n = (of_char c :: nat) in
     (48 \<le> n \<and> n \<le> 57) \<or> (65 \<le> n \<and> n \<le> 90) \<or> n = 95 \<or> (97 \<le> n \<and> n \<le> 122) \<or>
     n = 170 \<or> n = 178 \<or> n = 179 \<or> n = 181 \<or> n = 185 \<or> n = 186 \<or>
     (188 \<le> n \<and> n \<le> 190) \<or> (192 \<le> n \<and> n \<le> 214) \<or> (216 \<le> n \<and> n \<le> 246) \<or>
     (248 \<le> n \<and> n \<le> 255))"

definition lower :: "char \<Rightarrow> char" where
  "lower c = (let n = (of_char c :: nat) in
     if 65 \<le> n \<and> n \<le> 90 then char_of (n + 32) else c)"

text \<open>The class \<open>[0-9a-f]\<close> under \<open>(?i)\<close>.\<close>

definition is_hex :: "char \<Rightarrow> bool" where
  "is_hex c = (let n = (of_char (lower c) :: nat) in
     (48 \<le> n \<and> n \<le> 57) \<or> (97 \<le> n \<and> n \<le> 102))"

text \<open>The class \<open>[^.]\<close>, and \<open>.\<close> without the DOTALL flag.\<close>

definition not_dot :: "char \<Rightarrow> bool" where
  "not_dot c = (c \<noteq> CHR ''.'')"

definition not_newline :: "char \<Rightarrow> bool" where
  "not_newline c = (c \<noteq> newline)"

section \<open>The regular expressions of the source, and how Python matches them\<close>

text \<open>
  The constructors are the pattern elements the source uses. \<open>StrI\<close> is a run of literal
  characters under \<open>(?i)\<close>; \<open>Star\<close>, \<open>Plus\<close> and \<open>StarLazy\<close> are \<open>*\<close>, \<open>+\<close> and \<open>*?\<close> on a
  single-character class (the only repetitions in the source); \<open>WordB\<close> is \<open>\b\<close>;
  \<open>BolM\<close> and \<open>EolM\<close> are \<open>^\<close> and \<open>$\<close> under \<open>(?m)\<close>; \<open>Eol\<close> is \<open>$\<close> without it;
  \<open>Ahead\<close> is the lookahead \<open>(?=...)\<close>.
\<close>

datatype regex =
    Eps
  | Chr char
  | StrI string
  | Star "char \<Rightarrow> bool"
  | Plus "char \<Rightarrow> bool"
  | StarLazy "char \<Rightarrow> bool"
  | WordB
  | BolM
  | EolM
  | Eol
  | Seq regex regex
  | Alt regex regex
  | Ahead regex

definition word_at :: "string \<Rightarrow> nat \<Rightarrow> bool" where
  "word_at t p = (p < length t \<and> is_word (t ! p))"

definition word_before :: "string \<Rightarrow> nat \<Rightarrow> bool" where
  "word_before t p = (0 < p \<and> word_at t (p - 1))"

definition boundary :: "string \<Rightarrow> nat \<Rightarrow> bool" where
  "boundary t p = (word_before t p \<noteq> word_at t p)"

definition starts_ci :: "string \<Rightarrow> string \<Rightarrow> nat \<Rightarrow> bool" where
  "starts_ci s t p = (p + length s \<le> length t \<and>
     map lower (take (length s) (drop p t)) = map lower s)"

definition run :: "(char \<Rightarrow> bool) \<Rightarrow> string \<Rightarrow> nat \<Rightarrow> nat" where
  "run P t p = length (takeWhile P (drop p t))"

text \<open>
  \<open>ends r t p\<close> lists the offsets at which a match of \<open>r\<close> that starts at offset \<open>p\<close>
  of \<open>t\<close> can end, in the order in which the backtracking matcher tries them: the
  first element is the end of the match Python reports at \<open>p\<close>, and the empty list
  means that there is no match at \<open>p\<close>.
\<close>

fun ends :: "regex \<Rightarrow> string \<Rightarrow> nat \<Rightarrow> nat list" where
  "ends Eps t p = [p]"
| "ends (Chr c) t p = (if p < length t \<and> t ! p = c then [Suc p] else [])"
| "ends (StrI s) t p = (if starts_ci s t p then [p + length s] else [])"
| "ends (Star P) t p = rev [p ..< Suc (p + run P t p)]"
| "ends (Plus P) t p = rev [Suc p ..< Suc (p + run P t p)]"
| "ends (StarLazy P) t p = [p ..< Suc (p + run P t p)]"
| "ends WordB t p = (if boundary t p then [p] else [])"
| "ends BolM t p = (if p = 0 \<or> (p \<le> length t \<and> t ! (p - 1) = newline) then [p] else [])"
| "ends EolM t p = (if p = length t \<or> (p < length t \<and> t ! p = newline) then [p] else [])"
| "ends Eol t p =
     (if p = length t \<or> (Suc p = length t \<and> t ! p = newline) then [p] else [])"
| "ends (Seq a b) t p = concat (map (ends b t) (ends a t p))"
| "ends (Alt a b) t p = ends a t p @ ends b t p"
| "ends (Ahead a) t p = (if ends a t p = [] then [] else [p])"

definition cat :: "regex list \<Rightarrow> regex" where
  "cat rs = foldr Seq rs Eps"

lemma ends_ge: "e \<in> set (ends r t p) \<Longrightarrow> p \<le> e"
  by (induction r arbitrary: p e) (fastforce split: if_splits)+

text \<open>
  \<open>Pattern.finditer\<close>: the non-overlapping matches from left to right, as spans
  \<open>(start, end)\<close>. After an empty match the next search may not report an empty match
  at the same offset (the flag \<open>adv\<close>, \<open>must_advance\<close> in the matcher).
\<close>

function finditer_from :: "regex \<Rightarrow> string \<Rightarrow> nat \<Rightarrow> bool \<Rightarrow> (nat \<times> nat) list" where
  "finditer_from r t p adv =
     (if length t < p then []
      else (case filter (\<lambda>e. \<not> adv \<or> e \<noteq> p) (ends r t p) of
              [] \<Rightarrow> finditer_from r t (Suc p) False
            | e # _ \<Rightarrow> (p, e) # finditer_from r t e (e = p)))"
  by pat_completeness auto
termination
proof (relation "measures [\<lambda>(r, t, p, adv). Suc (length t) - p, \<lambda>(r, t, p, adv). if adv then 0 else 1]")
  show "wf (measures [\<lambda>(r, t, p, adv). Suc (length t) - p, \<lambda>(r, t, p, adv). if adv then 0 else (1::nat)])"
    by simp
next
  fix r :: regex and t :: string and p :: nat and adv :: bool
  assume "\<not> length t < p"
  then show "((r, t, Suc p, False), (r, t, p, adv))
      \<in> measures [\<lambda>(r, t, p, adv). Suc (length t) - p, \<lambda>(r, t, p, adv). if adv then 0 else (1::nat)]"
    by auto
next
  fix r :: regex and t :: string and p :: nat and adv :: bool and e :: nat and es :: "nat list"
  assume le: "\<not> length t < p"
    and f: "filter (\<lambda>e. \<not> adv \<or> e \<noteq> p) (ends r t p) = e # es"
  have "e \<in> set (filter (\<lambda>e. \<not> adv \<or> e \<noteq> p) (ends r t p))"
    unfolding f by simp
  then have mem: "e \<in> set (ends r t p)" and na: "\<not> adv \<or> e \<noteq> p"
    by auto
  from mem have "p \<le> e" by (rule ends_ge)
  with le na show "((r, t, e, e = p), (r, t, p, adv))
      \<in> measures [\<lambda>(r, t, p, adv). Suc (length t) - p, \<lambda>(r, t, p, adv). if adv then 0 else (1::nat)]"
    by auto
qed

definition finditer :: "regex \<Rightarrow> string \<Rightarrow> (nat \<times> nat) list" where
  "finditer r t = finditer_from r t 0 False"

text \<open>\<open>Pattern.search\<close>: the leftmost match, if there is one.\<close>

definition search :: "regex \<Rightarrow> string \<Rightarrow> (nat \<times> nat) option" where
  "search r t =
     (case find (\<lambda>p. ends r t p \<noteq> []) [0 ..< Suc (length t)] of
        None \<Rightarrow> None
      | Some p \<Rightarrow> Some (p, hd (ends r t p)))"

text \<open>The text between two offsets, \<open>t[i:j]\<close> for \<open>0 \<le> i\<close> and \<open>0 \<le> j\<close>.\<close>

definition slice :: "string \<Rightarrow> nat \<Rightarrow> nat \<Rightarrow> string" where
  "slice t i j = take (j - i) (drop i t)"

text \<open>
  \<open>re.sub(r, repl, t)\<close> for a replacement without group references: the text outside the
  matches, with \<open>repl\<close> in place of each match.
\<close>

fun sub_from :: "string \<Rightarrow> string \<Rightarrow> nat \<Rightarrow> (nat \<times> nat) list \<Rightarrow> string" where
  "sub_from repl t i [] = drop i t"
| "sub_from repl t i ((s, e) # ms) = slice t i s @ repl @ sub_from repl t e ms"

definition sub :: "regex \<Rightarrow> string \<Rightarrow> string \<Rightarrow> string" where
  "sub r repl t = sub_from repl t 0 (finditer r t)"

section \<open>Models\<close>

text \<open>
  \<open>Unit\<close> is the request model. \<open>scan_unit\<close> appends findings as dictionaries whose
  first six entries are copied from the unit, so \<open>Finding\<close> extends the same header
  record; the result of \<open>scan_unit\<close> is the unit's dump with the key
  \<open>rule118_findings\<close> added.
\<close>

record Header =
  pgm_name :: string
  inc_name :: string
  type :: string
  name :: "string option"
  start_line :: "int option"
  end_line :: "int option"

record Unit = Header +
  code :: "string option"

record Finding = Header +
  issue_type :: string
  severity :: string
  line :: int
  message :: string
  suggestion :: string
  snippet :: string

record ScanResult = Unit +
  rule118_findings :: "Finding list"

section \<open>Helpers\<close>

text \<open>
  Python's \<open>t[i:j]\<close> and the bounds of \<open>t.count(x, i, j)\<close>: a negative index counts
  from the end, and both indices are clamped to the text.
\<close>

definition py_index :: "string \<Rightarrow> int \<Rightarrow> nat" where
  "py_index t k =
     (if k < 0 then nat (max 0 (k + int (length t))) else min (nat k) (length t))"

definition py_slice :: "string \<Rightarrow> int \<Rightarrow> int \<Rightarrow> string" where
  "py_slice t i j = slice t (py_index t i) (py_index t j)"

text \<open>\<open>s.replace(old, new)\<close> for a one-character \<open>old\<close>.\<close>

definition replace :: "char \<Rightarrow> string \<Rightarrow> string \<Rightarrow> string" where
  "replace old new s = concat (map (\<lambda>c. if c = old then new else [c]) s)"

definition strip :: "string \<Rightarrow> string" where
  "strip s = rev (dropWhile is_space (rev (dropWhile is_space s)))"

definition line_of_offset :: "string \<Rightarrow> int \<Rightarrow> int" where
  "line_of_offset text off = int (count_list (py_slice text 0 off) newline) + 1"

definition snippet_at :: "string \<Rightarrow> int \<Rightarrow> int \<Rightarrow> string" where
  "snippet_at text start end =
     (let s = max 0 (start - 60);
          e = min (int (length text)) (end + 60)
      in replace newline [CHR 0x5C, CHR ''n''] (py_slice text s e))"

text \<open>The pattern \<open>".*?(?=\n|$)\<close> of \<open>strip_inline_quotes\<close>.\<close>

definition INLINE_RE :: regex where
  "INLINE_RE = cat [Chr (CHR 0x22), StarLazy not_newline, Ahead (Alt (Chr newline) Eol)]"

definition strip_inline_quotes :: "string \<Rightarrow> string" where
  "strip_inline_quotes s = sub INLINE_RE [] s"

text \<open>The pattern \<open>(?m)^\s*\*.*$\<close> of \<open>strip_full_line_star_comments\<close>.\<close>

definition STAR_RE :: regex where
  "STAR_RE = cat [BolM, Star is_space, Chr (CHR ''*''), Star not_newline, EolM]"

definition strip_full_line_star_comments :: "string \<Rightarrow> string" where
  "strip_full_line_star_comments s = sub STAR_RE [] s"

definition cleaned_stmt :: "string \<Rightarrow> string" where
  "cleaned_stmt stmt =
     (let no_stars = strip_full_line_star_comments stmt;
          no_inline = strip_inline_quotes no_stars
      in no_inline)"

definition is_entirely_commented :: "string \<Rightarrow> bool" where
  "is_entirely_commented stmt = (strip (cleaned_stmt stmt) = [])"

section \<open>Detection\<close>

definition STMT_RE :: regex where
  "STMT_RE = cat [WordB, StrI ''TRANSLATE'', WordB, Star not_dot, Chr (CHR ''.'')]"

definition HAS_CODEPAGE :: regex where
  "HAS_CODEPAGE = cat [WordB, StrI ''CODE'', Plus is_space, StrI ''PAGE'', WordB]"

definition LEGACY_CP :: regex where
  "LEGACY_CP = cat [WordB, StrI ''CODE'', Plus is_space, StrI ''PAGE'', Plus is_space,
     Alt (StrI ''CP1'') (StrI ''CP2''), WordB]"

definition FROM_CP :: regex where
  "FROM_CP = cat [WordB, StrI ''FROM'', Plus is_space, StrI ''CODE'', Plus is_space,
     StrI ''PAGE'', WordB]"

definition TO_CP :: regex where
  "TO_CP = cat [WordB, StrI ''TO'', Plus is_space, StrI ''CODE'', Plus is_space,
     StrI ''PAGE'', WordB]"

definition HEX_LITERAL :: regex where
  "HEX_LITERAL = cat [WordB, StrI ''x'', Chr (CHR 0x27), Plus is_hex, Chr (CHR 0x27), WordB]"

definition LIKELY_XVAR :: regex where
  "LIKELY_XVAR = cat [WordB, Alt (StrI ''lx_'') (Alt (StrI ''xstr'') (StrI ''xstring'')),
     Star is_word, WordB]"

text \<open>The entries every appended finding shares; the four others are given at each append.\<close>

definition finding :: "Unit \<Rightarrow> string \<Rightarrow> nat \<Rightarrow> nat \<Rightarrow> string \<Rightarrow> string \<Rightarrow> string \<Rightarrow> string \<Rightarrow> Finding" where
  "finding unit src start end it sev msg sug =
     \<lparr>pgm_name = pgm_name unit, inc_name = inc_name unit, type = type unit,
      name = name unit, start_line = start_line unit, end_line = end_line unit,
      issue_type = it, severity = sev,
      line = line_of_offset src (int start),
      message = msg, suggestion = sug,
      snippet = snippet_at src (int start) (int end)\<rparr>"

text \<open>
  One turn of the loop of \<open>scan_unit\<close>, for the match \<open>(start, end)\<close>: the findings it
  appends (none after \<open>continue\<close>).
\<close>

definition scan_stmt :: "Unit \<Rightarrow> string \<Rightarrow> nat \<times> nat \<Rightarrow> Finding list" where
  "scan_stmt unit src m =
     (let start = fst m; end = snd m;
          stmt_raw = slice src start end
      in if is_entirely_commented stmt_raw then []
         else
           (let stmt = cleaned_stmt stmt_raw;
                has_codepage = (search HAS_CODEPAGE stmt \<noteq> None);
                legacy_cp = (search LEGACY_CP stmt \<noteq> None);
                has_from = (search FROM_CP stmt \<noteq> None);
                has_to = (search TO_CP stmt \<noteq> None);
                non_char_risk = (search HEX_LITERAL stmt \<noteq> None \<or> search LIKELY_XVAR stmt \<noteq> None)
            in
              (if has_codepage then
                 [finding unit src start end ''TranslateObsoleteCodepage'' ''warning''
                    ''TRANSLATE uses CODE PAGE option (legacy/obsolete). Prefer FROM/TO CODE PAGE or CL_ABAP_CONV_CODEPAGE.''
                    (''Example (modern):\<newline>'' @
                     ''  TRANSLATE lv_text FROM CODE PAGE 'UTF-8' TO CODE PAGE 'UTF-16'.\<newline>'' @
                     ''Or use CL_ABAP_CONV_CODEPAGE for robust conversions.'')]
               else []) @
              (if legacy_cp then
                 [finding unit src start end ''TranslateLegacyCp1Cp2'' ''warning''
                    ''TRANSLATE references CP1/CP2 (legacy code pages).''
                    ''Use explicit Unicode pages (e.g., 'UTF-8', 'UTF-16') or CL_ABAP_CONV_CODEPAGE.'']
               else []) @
              (if has_codepage \<and> \<not> (has_from \<or> has_to) then
                 [finding unit src start end ''TranslateMissingFromTo'' ''info''
                    ''TRANSLATE with CODE PAGE should specify FROM CODE PAGE and/or TO CODE PAGE explicitly.''
                    ''Add FROM CODE PAGE <src> and/or TO CODE PAGE <dst> (e.g., 'UTF-8').'']
               else []) @
              (if non_char_risk then
                 [finding unit src start end ''TranslateNonCharacterRisk'' ''info''
                    ''TRANSLATE appears to operate on non-character/hex-like data. Ensure character-type variables for code page conversions.''
                    ''Use character-type variables (STRING/CHAR) or convert via CL_ABAP_CONV_CODEPAGE.'']
               else [])))"

text \<open>\<open>unit.code or ""\<close>: the body of the unit, empty when the code is absent.\<close>

definition body :: "Unit \<Rightarrow> string" where
  "body unit = (case code unit of None \<Rightarrow> [] | Some c \<Rightarrow> c)"

definition scan_unit :: "Unit \<Rightarrow> ScanResult" where
  "scan_unit unit =
     (let src = body unit;
          findings = foldl (\<lambda>findings m. findings @ scan_stmt unit src m) [] (finditer STMT_RE src)
      in \<lparr>pgm_name = pgm_name unit, inc_name = inc_name unit, type = type unit,
          name = name unit, start_line = start_line unit, end_line = end_line unit,
          code = code unit, rule118_findings = findings\<rparr>)"

section \<open>The phrases the classification is specified with\<close>

text \<open>
  \<open>phrase ws mid\<close>: the text \<open>mid\<close> is the words \<open>ws\<close> in this order, each in any
  letter case, with one or more whitespace characters between two neighbours.
\<close>

fun phrase :: "string list \<Rightarrow> string \<Rightarrow> bool" where
  "phrase [] mid = (mid = [])"
| "phrase [w] mid = (map lower mid = map lower w)"
| "phrase (w # v # ws) mid =
     (\<exists>u sp rest. mid = u @ sp @ rest \<and> map lower u = map lower w \<and>
        sp \<noteq> [] \<and> (\<forall>c\<in>set sp. is_space c) \<and> phrase (v # ws) rest)"

text \<open>
  \<open>contains_phrase ws s\<close>: the phrase occurs in \<open>s\<close> at word boundaries, that is, with
  no word character next to it on either side.
\<close>

definition contains_phrase :: "string list \<Rightarrow> string \<Rightarrow> bool" where
  "contains_phrase ws s =
     (\<exists>pre mid post. s = pre @ mid @ post \<and> phrase ws mid \<and>
        (pre = [] \<or> \<not> is_word (last pre)) \<and> (post = [] \<or> \<not> is_word (hd post)))"

text \<open>
  \<open>contains_identifier pfx s\<close>: \<open>s\<close> contains a whole word (a maximal run of word
  characters) that begins with \<open>pfx\<close> in any letter case.
\<close>

definition contains_identifier :: "string \<Rightarrow> string \<Rightarrow> bool" where
  "contains_identifier pfx s =
     (\<exists>pre w post. s = pre @ w @ post \<and> (\<forall>c\<in>set w. is_word c) \<and>
        length pfx \<le> length w \<and> map lower (take (length pfx) w) = map lower pfx \<and>
        (pre = [] \<or> \<not> is_word (last pre)) \<and> (post = [] \<or> \<not> is_word (hd post)))"

text \<open>
  \<open>keyword_at t p\<close>: a whole-word occurrence of the keyword TRANSLATE, in any letter
  case, starts at offset \<open>p\<close> of \<open>t\<close>.
\<close>

definition keyword_at :: "string \<Rightarrow> nat \<Rightarrow> bool" where
  "keyword_at t p =
     (p + 9 \<le> length t \<and> map lower (slice t p (p + 9)) = ''translate'' \<and>
      (p = 0 \<or> \<not> is_word (t ! (p - 1))) \<and> (p + 9 = length t \<or> \<not> is_word (t ! (p + 9))))"

section \<open>Auxiliary definitions\<close>

text \<open>The phrase \<open>ws\<close> fills the text from offset \<open>p\<close> to offset \<open>e\<close>.\<close>

definition spans_phrase :: "string list \<Rightarrow> string \<Rightarrow> nat \<Rightarrow> nat \<Rightarrow> bool" where
  "spans_phrase ws t p e = (p \<le> e \<and> e \<le> length t \<and> phrase ws (slice t p e))"

text \<open>The issue type and the severity of each finding, in order.\<close>

definition kinds :: "Finding list \<Rightarrow> (string \<times> string) list" where
  "kinds fs = map (\<lambda>f. (issue_type f, severity f)) fs"

text \<open>A sample unit with a given body, for the concrete runs below.\<close>

definition unit_with :: "string \<Rightarrow> Unit" where
  "unit_with c = \<lparr>pgm_name = ''ZPROG'', inc_name = ''ZINC'', type = ''FORM'',
     name = Some ''CONVERT'', start_line = Some 1, end_line = Some 9, code = Some c\<rparr>"

section \<open>Facts about the matcher\<close>

lemma is_word_lower: "is_word (lower c) = is_word c"
  by (auto simp: is_word_def lower_def Let_def)

lemma space_not_word: "is_space c \<Longrightarrow> \<not> is_word c"
  by (auto simp: is_space_def is_word_def Let_def)

lemma le_takeWhile_iff:
  "i \<le> length (takeWhile P xs) \<longleftrightarrow> i \<le> length xs \<and> (\<forall>c\<in>set (take i xs). P c)"
proof (induction xs arbitrary: i)
  case Nil
  then show ?case by auto
next
  case (Cons x xs)
  show ?case
  proof (cases i)
    case 0
    then show ?thesis by simp
  next
    case (Suc j)
    then show ?thesis using Cons.IH[of j] by auto
  qed
qed

lemma length_slice: "e \<le> length t \<Longrightarrow> length (slice t p e) = e - p"
  by (simp add: slice_def)

lemma slice_append:
  assumes "p \<le> a" and "a \<le> e"
  shows "slice t p e = slice t p a @ slice t a e"
proof -
  have "e - p = (a - p) + (e - a)"
    using assms by arith
  then have "take (e - p) (drop p t) = take ((a - p) + (e - a)) (drop p t)"
    by (rule arg_cong)
  also have "\<dots> = take (a - p) (drop p t) @ take (e - a) (drop (a - p) (drop p t))"
    by (rule take_add)
  also have "drop (a - p) (drop p t) = drop a t"
    using assms by simp
  finally show ?thesis
    by (simp add: slice_def)
qed

lemma run_slice:
  "a \<le> b \<Longrightarrow> a \<le> length t \<Longrightarrow>
   b \<le> a + run P t a \<longleftrightarrow> b \<le> length t \<and> (\<forall>c\<in>set (slice t a b). P c)"
  using le_takeWhile_iff[of "b - a" P "drop a t"]
  by (auto simp: run_def slice_def)

lemma set_ends_StrI:
  "e \<in> set (ends (StrI w) t p) \<longleftrightarrow> starts_ci w t p \<and> e = p + length w"
  by auto

lemma set_ends_Plus: "e \<in> set (ends (Plus P) t p) \<longleftrightarrow> p < e \<and> e \<le> p + run P t p"
  by auto

lemma set_ends_Star: "e \<in> set (ends (Star P) t p) \<longleftrightarrow> p \<le> e \<and> e \<le> p + run P t p"
  by auto

lemma set_ends_WordB: "e \<in> set (ends WordB t p) \<longleftrightarrow> boundary t p \<and> e = p"
  by auto

lemma set_ends_Chr: "e \<in> set (ends (Chr c) t p) \<longleftrightarrow> p < length t \<and> t ! p = c \<and> e = Suc p"
  by auto

lemma set_ends_cat_Nil: "e \<in> set (ends (cat []) t p) \<longleftrightarrow> e = p"
  by (auto simp: cat_def)

lemma set_ends_cat_Cons:
  "e \<in> set (ends (cat (r # rs)) t p) \<longleftrightarrow> (\<exists>m. m \<in> set (ends r t p) \<and> e \<in> set (ends (cat rs) t m))"
  by (auto simp: cat_def)

lemma set_ends_Alt: "e \<in> set (ends (Alt a b) t p) \<longleftrightarrow> e \<in> set (ends a t p) \<or> e \<in> set (ends b t p)"
  by auto

lemma search_None_iff: "search r t = None \<longleftrightarrow> (\<forall>p\<le>length t. ends r t p = [])"
proof -
  have "search r t = None \<longleftrightarrow> find (\<lambda>p. ends r t p \<noteq> []) [0 ..< Suc (length t)] = None"
    by (simp add: search_def split: option.splits)
  also have "\<dots> \<longleftrightarrow> (\<forall>p\<le>length t. ends r t p = [])"
    by (simp add: find_None_iff less_Suc_eq_le del: upt_Suc)
  finally show ?thesis .
qed

lemma search_Some_iff: "search r t \<noteq> None \<longleftrightarrow> (\<exists>p e. p \<le> length t \<and> e \<in> set (ends r t p))"
  unfolding search_None_iff
  by (metis all_not_in_conv set_empty)

lemma starts_ci_slice:
  "starts_ci w t p \<longleftrightarrow> p + length w \<le> length t \<and> map lower (slice t p (p + length w)) = map lower w"
  by (simp add: starts_ci_def slice_def)

lemma map_lower_length: "map lower u = map lower w \<Longrightarrow> length u = length w"
  by (rule map_eq_imp_length_eq)

lemma slice_eq_append:
  assumes "p \<le> e" and "e \<le> length t" and "slice t p e = u @ v" and "a = p + length u"
  shows "u = slice t p a" and "v = slice t a e" and "a \<le> e"
proof -
  have len: "length u + length v = e - p"
    using assms by (metis length_append length_slice)
  then show le: "a \<le> e" using assms(1,4) by arith
  have "slice t p e = slice t p a @ slice t a e"
    by (rule slice_append) (use le assms(4) in simp_all)
  moreover have "length (slice t p a) = length u"
    using le assms(2,4) by (simp add: length_slice)
  ultimately show "u = slice t p a" and "v = slice t a e"
    using assms(3) by (metis append_eq_append_conv)+
qed

lemma set_ends_StrI_phrase:
  "e \<in> set (ends (StrI w) t p) \<longleftrightarrow> spans_phrase [w] t p e"
proof
  assume "e \<in> set (ends (StrI w) t p)"
  then show "spans_phrase [w] t p e"
    by (auto simp: set_ends_StrI starts_ci_slice spans_phrase_def)
next
  assume a: "spans_phrase [w] t p e"
  then have "length (slice t p e) = length w"
    by (auto simp: spans_phrase_def dest: map_lower_length)
  with a have "e = p + length w"
    by (auto simp: spans_phrase_def length_slice)
  with a show "e \<in> set (ends (StrI w) t p)"
    by (auto simp: set_ends_StrI starts_ci_slice spans_phrase_def)
qed

lemma set_ends_Plus_slice:
  "b \<in> set (ends (Plus P) t a) \<longleftrightarrow> a < b \<and> b \<le> length t \<and> (\<forall>c\<in>set (slice t a b). P c)"
proof (cases "a \<le> length t")
  case True
  then show ?thesis
    using run_slice[of a b t P] by (auto simp: set_ends_Plus)
next
  case False
  then show ?thesis
    by (auto simp: set_ends_Plus run_def)
qed

lemma spans_phrase_Cons:
  "spans_phrase (w # v # ws) t p e \<longleftrightarrow>
     (\<exists>a b. a \<in> set (ends (StrI w) t p) \<and> b \<in> set (ends (Plus is_space) t a) \<and>
        spans_phrase (v # ws) t b e)"
proof
  assume "spans_phrase (w # v # ws) t p e"
  then obtain u sp rest where pe: "p \<le> e" "e \<le> length t"
    and dec: "slice t p e = u @ sp @ rest"
    and u: "map lower u = map lower w" and sp: "sp \<noteq> []" "\<forall>c\<in>set sp. is_space c"
    and rest: "phrase (v # ws) rest"
    by (auto simp: spans_phrase_def)
  define a where "a = p + length u"
  define b where "b = a + length sp"
  note 1 = slice_eq_append[OF pe dec a_def]
  note 2 = slice_eq_append[OF 1(3) pe(2) 1(2)[symmetric] b_def]
  have "map lower (slice t p a) = map lower w"
    using u 1(1) by simp
  then have "spans_phrase [w] t p a"
    using 1(3) pe by (simp add: spans_phrase_def a_def)
  moreover have "b \<in> set (ends (Plus is_space) t a)"
  proof -
    have "a < b" using sp(1) by (simp add: b_def)
    moreover have "b \<le> length t" using 2(3) pe(2) by simp
    moreover have "\<forall>c\<in>set (slice t a b). is_space c" using sp(2) 2(1) by simp
    ultimately show ?thesis unfolding set_ends_Plus_slice by blast
  qed
  moreover have "spans_phrase (v # ws) t b e"
  proof -
    have "phrase (v # ws) (slice t b e)" using rest 2(2) by simp
    then show ?thesis using 2(3) pe(2) unfolding spans_phrase_def by blast
  qed
  ultimately show "\<exists>a b. a \<in> set (ends (StrI w) t p) \<and> b \<in> set (ends (Plus is_space) t a) \<and>
        spans_phrase (v # ws) t b e"
    unfolding set_ends_StrI_phrase by blast
next
  assume "\<exists>a b. a \<in> set (ends (StrI w) t p) \<and> b \<in> set (ends (Plus is_space) t a) \<and>
        spans_phrase (v # ws) t b e"
  then obtain a b where a: "spans_phrase [w] t p a"
    and b: "a < b" "b \<le> length t" "\<forall>c\<in>set (slice t a b). is_space c"
    and r: "spans_phrase (v # ws) t b e"
    unfolding set_ends_StrI_phrase set_ends_Plus_slice by blast
  have pa: "p \<le> a" and be: "b \<le> e" and e: "e \<le> length t"
    using a r by (simp_all add: spans_phrase_def)
  have "slice t p e = slice t p a @ slice t a e"
    using pa b(1) be by (intro slice_append) simp_all
  also have "slice t a e = slice t a b @ slice t b e"
    using b(1) be by (intro slice_append) simp_all
  finally have dec: "slice t p e = slice t p a @ slice t a b @ slice t b e" .
  have ne: "slice t a b \<noteq> []"
    using b(1,2) by (metis length_slice length_0_conv zero_less_diff less_numeral_extra(3))
  have "phrase (w # v # ws) (slice t p e)"
    using dec a b(3) r ne by (auto simp: spans_phrase_def)
  then show "spans_phrase (w # v # ws) t p e"
    using pa b(1) be e by (simp add: spans_phrase_def)
qed

lemma phrase_hd:
  assumes "phrase (w # ws) mid" and "w \<noteq> []"
  shows "mid \<noteq> [] \<and> lower (hd mid) = lower (hd w)"
proof (cases ws)
  case Nil
  with assms have eq: "map lower mid = map lower w" by simp
  with assms(2) have ne: "mid \<noteq> []" by auto
  from eq have "hd (map lower mid) = hd (map lower w)" by simp
  with ne assms(2) show ?thesis by (simp add: hd_map)
next
  case (Cons v vs)
  with assms obtain u sp rest where dec: "mid = u @ sp @ rest"
    and eq: "map lower u = map lower w"
    by auto
  from eq assms(2) have ne: "u \<noteq> []" by auto
  from eq have "hd (map lower u) = hd (map lower w)" by simp
  with ne assms(2) dec show ?thesis by (simp add: hd_map)
qed

lemma phrase_last:
  "phrase ws mid \<Longrightarrow> ws \<noteq> [] \<Longrightarrow> last ws \<noteq> [] \<Longrightarrow>
   mid \<noteq> [] \<and> lower (last mid) = lower (last (last ws))"
proof (induction ws mid rule: phrase.induct)
  case (1 mid)
  then show ?case by simp
next
  case (2 w mid)
  then have eq: "map lower mid = map lower w" and w: "w \<noteq> []" by simp_all
  then have ne: "mid \<noteq> []" by auto
  from eq have "last (map lower mid) = last (map lower w)" by simp
  with ne w show ?case by (simp add: last_map)
next
  case (3 w v ws mid)
  from "3.prems"(1) obtain u sp rest where dec: "mid = u @ sp @ rest"
    and rest: "phrase (v # ws) rest"
    by auto
  from "3.prems" have "last (v # ws) \<noteq> []" by simp
  with "3.IH"[OF rest] have "rest \<noteq> [] \<and> lower (last rest) = lower (last (last (v # ws)))"
    by simp
  with dec show ?case by simp
qed

lemma hd_slice: "p < e \<Longrightarrow> e \<le> length t \<Longrightarrow> hd (slice t p e) = t ! p"
  by (simp add: slice_def hd_conv_nth)

lemma last_slice: "p < e \<Longrightarrow> e \<le> length t \<Longrightarrow> last (slice t p e) = t ! (e - 1)"
  by (simp add: slice_def last_conv_nth)

lemma split_at_span:
  "p \<le> e \<Longrightarrow> e \<le> length t \<Longrightarrow> t = take p t @ slice t p e @ drop e t"
proof -
  assume pe: "p \<le> e" and e: "e \<le> length t"
  have "slice t p e @ drop e t = drop p t"
    using pe by (metis slice_def add_diff_cancel_left' append_take_drop_id drop_drop le_add_diff_inverse add.commute)
  then show ?thesis by simp
qed

lemma last_take:
  assumes "0 < p" and "p \<le> length t"
  shows "last (take p t) = t ! (p - 1)"
proof -
  have len: "length (take p t) = p" using assms(2) by simp
  then have "take p t \<noteq> []" using assms(1) by auto
  then have "last (take p t) = take p t ! (length (take p t) - 1)"
    by (rule last_conv_nth)
  also have "\<dots> = t ! (p - 1)"
    unfolding len using assms(1) by simp
  finally show ?thesis .
qed

lemma not_word_before_iff:
  "p \<le> length t \<Longrightarrow> \<not> word_before t p \<longleftrightarrow> take p t = [] \<or> \<not> is_word (last (take p t))"
  by (cases "p = 0") (auto simp: word_before_def word_at_def last_take)

lemma not_word_at_iff:
  "\<not> word_at t e \<longleftrightarrow> drop e t = [] \<or> \<not> is_word (hd (drop e t))"
  by (auto simp: word_at_def hd_drop_conv_nth)

lemma contains_phrase_iff:
  assumes "ws \<noteq> []" and "hd ws \<noteq> []" and "is_word (hd (hd ws))"
    and "last ws \<noteq> []" and "is_word (last (last ws))"
  shows "contains_phrase ws t \<longleftrightarrow>
    (\<exists>p e. boundary t p \<and> spans_phrase ws t p e \<and> boundary t e)"
proof
  have ends_word: "mid \<noteq> [] \<and> is_word (hd mid) \<and> is_word (last mid)" if "phrase ws mid" for mid
  proof -
    from assms(1) obtain w vs where ws: "ws = w # vs" by (cases ws) auto
    with assms(2) that have "mid \<noteq> [] \<and> lower (hd mid) = lower (hd w)"
      by (intro phrase_hd[of w vs]) simp_all
    moreover from phrase_last[OF that assms(1,4)]
    have "lower (last mid) = lower (last (last ws))" by simp
    ultimately show ?thesis
      using assms(3,5) ws by (metis is_word_lower list.sel(1))
  qed
  {
    assume "contains_phrase ws t"
    then obtain pre mid post where t: "t = pre @ mid @ post" and ph: "phrase ws mid"
      and pre: "pre = [] \<or> \<not> is_word (last pre)" and post: "post = [] \<or> \<not> is_word (hd post)"
      unfolding contains_phrase_def by blast
    from ends_word[OF ph] have mid: "mid \<noteq> []" "is_word (hd mid)" "is_word (last mid)"
      by simp_all
    define p where "p = length pre"
    define e where "e = length pre + length mid"
    have sl: "slice t p e = mid"
      by (simp add: t p_def e_def slice_def)
    have "word_at t p"
      using mid by (simp add: word_at_def t p_def nth_append hd_conv_nth)
    moreover have "\<not> word_before t p"
      using pre by (auto simp: word_before_def word_at_def t p_def nth_append last_conv_nth)
    ultimately have bp: "boundary t p" by (simp add: boundary_def)
    have len: "0 < length mid" using mid(1) by simp
    then have e1: "e - 1 = length pre + (length mid - 1)" unfolding e_def by linarith
    have "t ! (e - 1) = last mid"
      unfolding e1 using len by (simp add: t nth_append last_conv_nth)
    moreover have "0 < e" and "e - 1 < length t"
      using len unfolding e_def t length_append by linarith+
    ultimately have "word_before t e"
      using mid(3) unfolding word_before_def word_at_def by simp
    moreover have "\<not> word_at t e"
      using post by (auto simp: word_at_def t e_def nth_append hd_conv_nth)
    ultimately have be: "boundary t e" by (simp add: boundary_def)
    have "spans_phrase ws t p e"
      using ph sl by (simp add: spans_phrase_def) (simp add: p_def e_def t)
    with bp be show "\<exists>p e. boundary t p \<and> spans_phrase ws t p e \<and> boundary t e"
      by blast
  }
  {
    assume "\<exists>p e. boundary t p \<and> spans_phrase ws t p e \<and> boundary t e"
    then obtain p e where bp: "boundary t p" and be: "boundary t e"
      and pe: "p \<le> e" "e \<le> length t" and ph: "phrase ws (slice t p e)"
      unfolding spans_phrase_def by blast
    from ends_word[OF ph] have mid: "slice t p e \<noteq> []" "is_word (hd (slice t p e))"
      "is_word (last (slice t p e))"
      by simp_all
    from mid(1) pe have lt: "p < e"
      by (cases "p = e") (simp_all add: slice_def)
    have "word_at t p"
      using mid(2) lt pe by (simp add: hd_slice word_at_def)
    with bp have "\<not> word_before t p" by (simp add: boundary_def)
    then have pre: "take p t = [] \<or> \<not> is_word (last (take p t))"
      using not_word_before_iff[of p t] lt pe by simp
    have "word_before t e"
      using mid(3) lt pe by (simp add: last_slice word_before_def word_at_def)
    with be have "\<not> word_at t e" by (simp add: boundary_def)
    then have post: "drop e t = [] \<or> \<not> is_word (hd (drop e t))"
      by (simp add: not_word_at_iff)
    from split_at_span[OF pe] ph pre post show "contains_phrase ws t"
      unfolding contains_phrase_def by blast
  }
qed

lemma set_ends_phrase2:
  "e \<in> set (ends (cat [WordB, StrI a, Plus is_space, StrI b, WordB]) t p) \<longleftrightarrow>
     boundary t p \<and> spans_phrase [a, b] t p e \<and> boundary t e"
  unfolding set_ends_cat_Cons set_ends_cat_Nil set_ends_WordB
    spans_phrase_Cons set_ends_StrI_phrase[symmetric]
  by (auto simp del: ends.simps)

lemma set_ends_phrase3:
  "e \<in> set (ends (cat [WordB, StrI a, Plus is_space, StrI b, Plus is_space, StrI c, WordB]) t p) \<longleftrightarrow>
     boundary t p \<and> spans_phrase [a, b, c] t p e \<and> boundary t e"
  unfolding set_ends_cat_Cons set_ends_cat_Nil set_ends_WordB
    spans_phrase_Cons set_ends_StrI_phrase[symmetric]
  by (auto simp del: ends.simps)

lemma set_ends_phrase3_alt:
  "e \<in> set (ends (cat [WordB, StrI a, Plus is_space, StrI b, Plus is_space,
        Alt (StrI c) (StrI d), WordB]) t p) \<longleftrightarrow>
     boundary t p \<and> (spans_phrase [a, b, c] t p e \<or> spans_phrase [a, b, d] t p e) \<and> boundary t e"
  unfolding set_ends_cat_Cons set_ends_cat_Nil set_ends_WordB set_ends_Alt
    spans_phrase_Cons set_ends_StrI_phrase[symmetric]
  by (auto simp del: ends.simps)


lemma spans_phrase_le: "spans_phrase ws t p e \<Longrightarrow> p \<le> length t"
  by (simp add: spans_phrase_def)

lemma search_spans:
  assumes "\<And>p e. e \<in> set (ends r t p) \<longleftrightarrow> boundary t p \<and> spans_phrase ws t p e \<and> boundary t e"
    and "ws \<noteq> []" and "hd ws \<noteq> []" and "is_word (hd (hd ws))"
    and "last ws \<noteq> []" and "is_word (last (last ws))"
  shows "search r t \<noteq> None \<longleftrightarrow> contains_phrase ws t"
proof -
  have "search r t \<noteq> None \<longleftrightarrow> (\<exists>p e. boundary t p \<and> spans_phrase ws t p e \<and> boundary t e)"
    unfolding search_Some_iff assms(1) using spans_phrase_le by blast
  then show ?thesis
    unfolding contains_phrase_iff[OF assms(2-6)] .
qed

lemma has_codepage_iff:
  "search HAS_CODEPAGE s \<noteq> None \<longleftrightarrow> contains_phrase [''CODE'', ''PAGE''] s"
  unfolding HAS_CODEPAGE_def
  by (rule search_spans, rule set_ends_phrase2) (simp_all add: is_word_def)

lemma has_from_iff:
  "search FROM_CP s \<noteq> None \<longleftrightarrow> contains_phrase [''FROM'', ''CODE'', ''PAGE''] s"
  unfolding FROM_CP_def
  by (rule search_spans, rule set_ends_phrase3) (simp_all add: is_word_def)

lemma has_to_iff:
  "search TO_CP s \<noteq> None \<longleftrightarrow> contains_phrase [''TO'', ''CODE'', ''PAGE''] s"
  unfolding TO_CP_def
  by (rule search_spans, rule set_ends_phrase3) (simp_all add: is_word_def)

lemma legacy_cp_iff:
  "search LEGACY_CP s \<noteq> None \<longleftrightarrow>
     contains_phrase [''CODE'', ''PAGE'', ''CP1''] s \<or> contains_phrase [''CODE'', ''PAGE'', ''CP2''] s"
proof -
  have "search LEGACY_CP s \<noteq> None \<longleftrightarrow>
      (\<exists>p e. boundary s p \<and> spans_phrase [''CODE'', ''PAGE'', ''CP1''] s p e \<and> boundary s e) \<or>
      (\<exists>p e. boundary s p \<and> spans_phrase [''CODE'', ''PAGE'', ''CP2''] s p e \<and> boundary s e)"
    unfolding search_Some_iff LEGACY_CP_def set_ends_phrase3_alt using spans_phrase_le by blast
  also have "(\<exists>p e. boundary s p \<and> spans_phrase [''CODE'', ''PAGE'', ''CP1''] s p e \<and> boundary s e)
      \<longleftrightarrow> contains_phrase [''CODE'', ''PAGE'', ''CP1''] s"
    by (rule contains_phrase_iff[symmetric]) (simp_all add: is_word_def)
  also have "(\<exists>p e. boundary s p \<and> spans_phrase [''CODE'', ''PAGE'', ''CP2''] s p e \<and> boundary s e)
      \<longleftrightarrow> contains_phrase [''CODE'', ''PAGE'', ''CP2''] s"
    by (rule contains_phrase_iff[symmetric]) (simp_all add: is_word_def)
  finally show ?thesis .
qed

text \<open>A longer phrase contains its first two words.\<close>

lemma phrase3_phrase2:
  assumes "contains_phrase [a, b, w] s"
  shows "contains_phrase [a, b] s"
proof -
  from assms obtain pre mid post where s: "s = pre @ mid @ post"
    and ph: "phrase [a, b, w] mid"
    and pre: "pre = [] \<or> \<not> is_word (last pre)"
    unfolding contains_phrase_def by blast
  from ph obtain u sp rest where mid: "mid = u @ sp @ rest"
    and u: "map lower u = map lower a" and sp: "sp \<noteq> []" "\<forall>c\<in>set sp. is_space c"
    and rest: "phrase [b, w] rest"
    unfolding phrase.simps by blast
  from rest obtain v sp' rest' where r: "rest = v @ sp' @ rest'"
    and v: "map lower v = map lower b" and sp': "sp' \<noteq> []" "\<forall>c\<in>set sp'. is_space c"
    unfolding phrase.simps by blast
  have "phrase [a, b] (u @ sp @ v)"
    unfolding phrase.simps using u sp v by blast
  moreover have "s = pre @ (u @ sp @ v) @ (sp' @ rest' @ post)"
    by (simp add: s mid r)
  moreover have "\<not> is_word (hd (sp' @ rest' @ post))"
    using sp' by (cases sp') (auto simp: space_not_word)
  ultimately show ?thesis
    using pre unfolding contains_phrase_def by blast
qed

section \<open>Facts about the scan\<close>

lemma boundaries_of_span:
  assumes t: "t = pre @ mid @ post" and ne: "mid \<noteq> []"
    and h: "is_word (hd mid)" and l: "is_word (last mid)"
    and pre: "pre = [] \<or> \<not> is_word (last pre)" and post: "post = [] \<or> \<not> is_word (hd post)"
  shows "boundary t (length pre)" and "boundary t (length pre + length mid)"
proof -
  define p where "p = length pre"
  define e where "e = length pre + length mid"
  have "word_at t p"
    using ne h by (simp add: word_at_def t p_def nth_append hd_conv_nth)
  moreover have "\<not> word_before t p"
    using pre by (auto simp: word_before_def word_at_def t p_def nth_append last_conv_nth)
  ultimately show "boundary t (length pre)" by (simp add: boundary_def p_def)
  have len: "0 < length mid" using ne by simp
  then have e1: "e - 1 = length pre + (length mid - 1)" unfolding e_def by linarith
  have "t ! (e - 1) = last mid"
    unfolding e1 using len by (simp add: t nth_append last_conv_nth)
  moreover have "0 < e" and "e - 1 < length t"
    using len unfolding e_def t length_append by linarith+
  ultimately have "word_before t e"
    using l unfolding word_before_def word_at_def by simp
  moreover have "\<not> word_at t e"
    using post by (auto simp: word_at_def t e_def nth_append hd_conv_nth)
  ultimately show "boundary t (length pre + length mid)" by (simp add: boundary_def e_def)
qed

lemma likely_xvar_match:
  assumes "contains_identifier pfx s" and "pfx \<in> {''lx_'', ''xstr'', ''xstring''}"
  shows "search LIKELY_XVAR s \<noteq> None"
proof -
  from assms(1) obtain pre w post where s: "s = pre @ w @ post"
    and w: "\<forall>c\<in>set w. is_word c" and len: "length pfx \<le> length w"
    and eq: "map lower (take (length pfx) w) = map lower pfx"
    and pre: "pre = [] \<or> \<not> is_word (last pre)" and post: "post = [] \<or> \<not> is_word (hd post)"
    unfolding contains_identifier_def by blast
  define p where "p = length pre"
  define q where "q = p + length pfx"
  define e where "e = p + length w"
  from assms(2) have "pfx \<noteq> []" by auto
  with len have ne: "w \<noteq> []" by auto
  with w have hl: "is_word (hd w)" "is_word (last w)" by simp_all
  note b = boundaries_of_span[OF s ne hl pre post]
  have "take (length pfx) (drop p s) = take (length pfx) w"
    using len by (simp add: s p_def)
  then have "starts_ci pfx s p"
    using len eq by (simp add: starts_ci_def) (simp add: s p_def)
  then have "q \<in> set (ends (StrI pfx) s p)"
    unfolding set_ends_StrI q_def by simp
  with assms(2) have 1: "q \<in> set (ends (Alt (StrI ''lx_'') (Alt (StrI ''xstr'') (StrI ''xstring''))) s p)"
    unfolding set_ends_Alt by blast
  have qe: "q \<le> e" "q \<le> length s" "e \<le> length s"
    using len by (simp_all add: q_def e_def s p_def)
  have "slice s q e = drop (length pfx) w"
    by (simp add: slice_def s q_def e_def p_def)
  then have "\<forall>c\<in>set (slice s q e). is_word c"
    using w by (auto dest: in_set_dropD)
  then have "e \<le> q + run is_word s q"
    using run_slice[OF qe(1,2), of is_word] qe(3) by simp
  with qe(1) have 2: "e \<in> set (ends (Star is_word) s q)"
    unfolding set_ends_Star by simp
  have "e \<in> set (ends LIKELY_XVAR s p)"
    unfolding LIKELY_XVAR_def set_ends_cat_Cons set_ends_cat_Nil set_ends_WordB
    using 1 2 b by (auto simp: p_def e_def simp del: ends.simps)
  moreover have "p \<le> length s" by (simp add: p_def s)
  ultimately show ?thesis
    unfolding search_Some_iff by blast
qed

lemma foldl_append_concat:
  "foldl (\<lambda>acc m. acc @ f m) a xs = a @ concat (map f xs)"
  by (induction xs arbitrary: a) simp_all

lemma scan_unit_findings:
  "rule118_findings (scan_unit u) = concat (map (scan_stmt u (body u)) (finditer STMT_RE (body u)))"
  by (simp add: scan_unit_def Let_def foldl_append_concat)

lemma scan_stmt_subset:
  "m \<in> set (finditer STMT_RE (body u)) \<Longrightarrow> f \<in> set (scan_stmt u (body u) m) \<Longrightarrow>
   f \<in> set (rule118_findings (scan_unit u))"
  unfolding scan_unit_findings by auto

lemma scan_stmt_kinds:
  assumes "\<not> is_entirely_commented (slice src (fst m) (snd m))"
  shows "kinds (scan_stmt u src m) =
     (let stmt = cleaned_stmt (slice src (fst m) (snd m)) in
      (if search HAS_CODEPAGE stmt \<noteq> None then [(''TranslateObsoleteCodepage'', ''warning'')] else []) @
      (if search LEGACY_CP stmt \<noteq> None then [(''TranslateLegacyCp1Cp2'', ''warning'')] else []) @
      (if search HAS_CODEPAGE stmt \<noteq> None \<and> \<not> (search FROM_CP stmt \<noteq> None \<or> search TO_CP stmt \<noteq> None)
       then [(''TranslateMissingFromTo'', ''info'')] else []) @
      (if search HEX_LITERAL stmt \<noteq> None \<or> search LIKELY_XVAR stmt \<noteq> None
       then [(''TranslateNonCharacterRisk'', ''info'')] else []))"
  using assms by (simp add: scan_stmt_def kinds_def Let_def finding_def)

lemma scan_stmt_fields:
  assumes "f \<in> set (scan_stmt u src m)"
  shows "line f = line_of_offset src (int (fst m)) \<and>
    snippet f = snippet_at src (int (fst m)) (int (snd m)) \<and>
    pgm_name f = pgm_name u \<and> inc_name f = inc_name u \<and> type f = type u \<and> name f = name u \<and>
    start_line f = start_line u \<and> end_line f = end_line u"
  using assms by (auto simp: scan_stmt_def Let_def finding_def split: if_splits)

lemma kinds_iff: "(it, sev) \<in> set (kinds fs) \<longleftrightarrow> (\<exists>f\<in>set fs. issue_type f = it \<and> severity f = sev)"
  by (auto simp: kinds_def)

section \<open>Facts about the statement extractor\<close>

lemma filter_hd_mem:
  assumes "filter P xs = e # es"
  shows "e \<in> set xs \<and> P e"
proof -
  have "e \<in> set (filter P xs)" unfolding assms by simp
  then show ?thesis by simp
qed

lemma finditer_from_sound:
  "m \<in> set (finditer_from r t p adv) \<Longrightarrow>
   p \<le> fst m \<and> fst m \<le> length t \<and> snd m \<in> set (ends r t (fst m))"
proof (induction r t p adv rule: finditer_from.induct)
  case (1 r t p adv)
  show ?case
  proof (cases "length t < p")
    case True
    with "1.prems" show ?thesis by simp
  next
    case le: False
    show ?thesis
    proof (cases "filter (\<lambda>e. \<not> adv \<or> e \<noteq> p) (ends r t p)")
      case Nil
      with le "1.prems" have "m \<in> set (finditer_from r t (Suc p) False)"
        by simp
      from "1.IH"(1)[OF le Nil this] show ?thesis by simp
    next
      case (Cons e es)
      from filter_hd_mem[OF Cons] have mem: "e \<in> set (ends r t p)" by simp
      from Cons le "1.prems" have "m = (p, e) \<or> m \<in> set (finditer_from r t e (e = p))"
        by simp
      then show ?thesis
      proof
        assume "m = (p, e)"
        with mem le show ?thesis by simp
      next
        assume "m \<in> set (finditer_from r t e (e = p))"
        from "1.IH"(2)[OF le Cons this] ends_ge[OF mem] show ?thesis by simp
      qed
    qed
  qed
qed

lemma finditer_from_sorted:
  "sorted_wrt (\<lambda>a b. snd a \<le> fst b) (finditer_from r t p adv)"
proof (induction r t p adv rule: finditer_from.induct)
  case (1 r t p adv)
  show ?case
  proof (cases "length t < p")
    case True
    then show ?thesis by simp
  next
    case le: False
    show ?thesis
    proof (cases "filter (\<lambda>e. \<not> adv \<or> e \<noteq> p) (ends r t p)")
      case Nil
      with le "1.IH"(1) show ?thesis by simp
    next
      case (Cons e es)
      have "\<forall>b\<in>set (finditer_from r t e (e = p)). e \<le> fst b"
        using finditer_from_sound by blast
      with Cons le "1.IH"(2) show ?thesis by simp
    qed
  qed
qed

lemma finditer_sound:
  "m \<in> set (finditer r t) \<Longrightarrow> fst m \<le> length t \<and> snd m \<in> set (ends r t (fst m))"
  unfolding finditer_def using finditer_from_sound by blast

lemma finditer_sorted: "sorted_wrt (\<lambda>a b. snd a \<le> fst b) (finditer r t)"
  unfolding finditer_def by (rule finditer_from_sorted)

lemma lower_TRANSLATE: "map lower ''TRANSLATE'' = ''translate''"
  by code_simp

lemma starts_ci_TRANSLATE:
  "starts_ci ''TRANSLATE'' t p \<longleftrightarrow>
     p + 9 \<le> length t \<and> map lower (slice t p (p + 9)) = ''translate''"
proof -
  have "length ''TRANSLATE'' = 9" by simp
  then show ?thesis
    by (simp only: starts_ci_slice lower_TRANSLATE)
qed

lemma set_ends_StrI_TRANSLATE:
  "m \<in> set (ends (StrI ''TRANSLATE'') t p) \<longleftrightarrow> starts_ci ''TRANSLATE'' t p \<and> m = p + 9"
proof -
  have "length ''TRANSLATE'' = 9" by simp
  then show ?thesis
    by (simp only: set_ends_StrI)
qed

lemma keyword_chars:
  assumes "p + 9 \<le> length t" and "map lower (slice t p (p + 9)) = ''translate''"
  shows "is_word (t ! p)" and "is_word (t ! (p + 8))" and "CHR ''.'' \<notin> set (slice t p (p + 9))"
proof -
  have len: "length (slice t p (p + 9)) = 9"
    using assms(1) by (simp add: length_slice)
  have nth: "lower (t ! (p + k)) = ''translate'' ! k" if "k < 9" for k
  proof -
    have "map lower (slice t p (p + 9)) ! k = lower (slice t p (p + 9) ! k)"
      using that len by simp
    also have "slice t p (p + 9) ! k = t ! (p + k)"
      using that assms(1) by (simp add: slice_def)
    finally show ?thesis using assms(2) by simp
  qed
  from nth[of 0] have "is_word (lower (t ! p))" by (simp add: is_word_def)
  then show "is_word (t ! p)" by (simp add: is_word_lower)
  from nth[of 8] have "is_word (lower (t ! (p + 8)))" by (simp add: is_word_def)
  then show "is_word (t ! (p + 8))" by (simp add: is_word_lower)
  show "CHR ''.'' \<notin> set (slice t p (p + 9))"
  proof
    assume "CHR ''.'' \<in> set (slice t p (p + 9))"
    then have "lower (CHR ''.'') \<in> set (map lower (slice t p (p + 9)))"
      by (metis image_eqI set_map)
    then show False
      unfolding assms(2) by (simp add: lower_def)
  qed
qed

lemma keyword_at_iff:
  "boundary t p \<and> starts_ci ''TRANSLATE'' t p \<and> boundary t (p + 9) \<longleftrightarrow> keyword_at t p"
proof (cases "p + 9 \<le> length t \<and> map lower (slice t p (p + 9)) = ''translate''")
  case True
  then have le: "p + 9 \<le> length t" and eq: "map lower (slice t p (p + 9)) = ''translate''"
    by simp_all
  note kc = keyword_chars[OF le eq]
  have st: "starts_ci ''TRANSLATE'' t p"
    using True unfolding starts_ci_TRANSLATE by blast
  have at: "word_at t p" using kc(1) le by (simp add: word_at_def)
  have bf: "word_before t (p + 9)"
    using kc(2) le by (simp add: word_before_def word_at_def add.commute)
  have 1: "boundary t p \<longleftrightarrow> p = 0 \<or> \<not> is_word (t ! (p - 1))"
    using at le by (auto simp: boundary_def word_before_def word_at_def)
  have 2: "boundary t (p + 9) \<longleftrightarrow> p + 9 = length t \<or> \<not> is_word (t ! (p + 9))"
    using bf le by (auto simp: boundary_def word_at_def)
  show ?thesis
    unfolding keyword_at_def using True st 1 2 by auto
next
  case False
  then have "\<not> starts_ci ''TRANSLATE'' t p"
    unfolding starts_ci_TRANSLATE by blast
  with False show ?thesis
    unfolding keyword_at_def by auto
qed

lemma set_ends_Star_slice:
  "a \<le> length t \<Longrightarrow>
   b \<in> set (ends (Star P) t a) \<longleftrightarrow> a \<le> b \<and> b \<le> length t \<and> (\<forall>c\<in>set (slice t a b). P c)"
  using run_slice[of a b t P] by (auto simp: set_ends_Star)

lemma set_ends_STMT_RE:
  "e \<in> set (ends STMT_RE t p) \<longleftrightarrow>
     keyword_at t p \<and> p + 9 < e \<and> e \<le> length t \<and> t ! (e - 1) = CHR ''.'' \<and>
     CHR ''.'' \<notin> set (slice t p (e - 1))"
proof (cases "keyword_at t p")
  case False
  then show ?thesis
    unfolding STMT_RE_def set_ends_cat_Cons set_ends_cat_Nil set_ends_WordB
      set_ends_StrI_TRANSLATE
    using keyword_at_iff[of t p] by (auto simp del: ends.simps)
next
  case True
  then have k: "boundary t p" "starts_ci ''TRANSLATE'' t p" "boundary t (p + 9)"
    using keyword_at_iff[of t p] by simp_all
  from True have le: "p + 9 \<le> length t" and eq: "map lower (slice t p (p + 9)) = ''translate''"
    by (simp_all add: keyword_at_def)
  have nodot: "CHR ''.'' \<notin> set (slice t p q) \<longleftrightarrow> (\<forall>c\<in>set (slice t (p + 9) q). not_dot c)"
    if "p + 9 \<le> q" for q
  proof -
    have "slice t p q = slice t p (p + 9) @ slice t (p + 9) q"
      using that by (intro slice_append) simp_all
    then show ?thesis
      using keyword_chars(3)[OF le eq] by (auto simp: not_dot_def)
  qed
  have "e \<in> set (ends STMT_RE t p) \<longleftrightarrow>
      (\<exists>q. q \<in> set (ends (Star not_dot) t (p + 9)) \<and> q < length t \<and> t ! q = CHR ''.'' \<and> e = Suc q)"
    unfolding STMT_RE_def set_ends_cat_Cons set_ends_cat_Nil set_ends_WordB
      set_ends_StrI_TRANSLATE set_ends_Chr
    using k by (auto simp del: ends.simps)
  also have "\<dots> \<longleftrightarrow> (\<exists>q. p + 9 \<le> q \<and> CHR ''.'' \<notin> set (slice t p q) \<and> q < length t \<and>
      t ! q = CHR ''.'' \<and> e = Suc q)"
    unfolding set_ends_Star_slice[OF le] using nodot by auto
  also have "\<dots> \<longleftrightarrow> p + 9 < e \<and> e \<le> length t \<and> t ! (e - 1) = CHR ''.'' \<and>
     CHR ''.'' \<notin> set (slice t p (e - 1))"
  proof
    assume "\<exists>q. p + 9 \<le> q \<and> CHR ''.'' \<notin> set (slice t p q) \<and> q < length t \<and>
      t ! q = CHR ''.'' \<and> e = Suc q"
    then show "p + 9 < e \<and> e \<le> length t \<and> t ! (e - 1) = CHR ''.'' \<and>
     CHR ''.'' \<notin> set (slice t p (e - 1))"
      by auto
  next
    assume a: "p + 9 < e \<and> e \<le> length t \<and> t ! (e - 1) = CHR ''.'' \<and>
     CHR ''.'' \<notin> set (slice t p (e - 1))"
    then have "p + 9 \<le> e - 1 \<and> CHR ''.'' \<notin> set (slice t p (e - 1)) \<and> e - 1 < length t \<and>
      t ! (e - 1) = CHR ''.'' \<and> e = Suc (e - 1)"
      by auto
    then show "\<exists>q. p + 9 \<le> q \<and> CHR ''.'' \<notin> set (slice t p q) \<and> q < length t \<and>
      t ! q = CHR ''.'' \<and> e = Suc q"
      by blast
  qed
  finally show ?thesis using True by simp
qed

lemma body_unit_with: "body (unit_with c) = c"
  by (simp add: body_def unit_with_def)

lemma kinds_single_stmt:
  assumes "finditer STMT_RE (body u) = [m]"
    and "\<not> is_entirely_commented (slice (body u) (fst m) (snd m))"
    and "cleaned_stmt (slice (body u) (fst m) (snd m)) = stmt"
  shows "kinds (rule118_findings (scan_unit u)) =
      (if search HAS_CODEPAGE stmt \<noteq> None then [(''TranslateObsoleteCodepage'', ''warning'')] else []) @
      (if search LEGACY_CP stmt \<noteq> None then [(''TranslateLegacyCp1Cp2'', ''warning'')] else []) @
      (if search HAS_CODEPAGE stmt \<noteq> None \<and> \<not> (search FROM_CP stmt \<noteq> None \<or> search TO_CP stmt \<noteq> None)
       then [(''TranslateMissingFromTo'', ''info'')] else []) @
      (if search HEX_LITERAL stmt \<noteq> None \<or> search LIKELY_XVAR stmt \<noteq> None
       then [(''TranslateNonCharacterRisk'', ''info'')] else [])"
proof -
  have "rule118_findings (scan_unit u) = scan_stmt u (body u) m"
    by (simp add: scan_unit_findings assms(1))
  then show ?thesis
    using scan_stmt_kinds[OF assms(2), of u] by (simp only: Let_def assms(3))
qed

text \<open>Without the phrase CODE PAGE only the fourth check can fire.\<close>

lemma no_codepage_kinds:
  assumes "\<not> is_entirely_commented (slice src (fst m) (snd m))"
    and "\<not> contains_phrase [''CODE'', ''PAGE''] (cleaned_stmt (slice src (fst m) (snd m)))"
  shows "kinds (scan_stmt u src m) =
     (if search HEX_LITERAL (cleaned_stmt (slice src (fst m) (snd m))) \<noteq> None \<or>
         search LIKELY_XVAR (cleaned_stmt (slice src (fst m) (snd m))) \<noteq> None
      then [(''TranslateNonCharacterRisk'', ''info'')] else [])"
proof -
  let ?stmt = "cleaned_stmt (slice src (fst m) (snd m))"
  from assms(2) have 1: "\<not> search HAS_CODEPAGE ?stmt \<noteq> None"
    unfolding has_codepage_iff .
  from assms(2) have 2: "\<not> search LEGACY_CP ?stmt \<noteq> None"
    unfolding legacy_cp_iff using phrase3_phrase2 by blast
  show ?thesis
    unfolding scan_stmt_kinds[OF assms(1)] Let_def if_not_P[OF 1] if_not_P[OF 2]
    using 1 by simp
qed

lemma strip_eq_Nil_iff: "strip s = [] \<longleftrightarrow> (\<forall>c\<in>set s. is_space c)"
proof -
  have "strip s = [] \<longleftrightarrow> (\<forall>c\<in>set (dropWhile is_space s). is_space c)"
    by (simp add: strip_def dropWhile_eq_Nil_conv)
  also have "\<dots> \<longleftrightarrow> (\<forall>c\<in>set s. is_space c)"
  proof
    assume a: "\<forall>c\<in>set (dropWhile is_space s). is_space c"
    have "set s = set (takeWhile is_space s) \<union> set (dropWhile is_space s)"
      by (metis set_append takeWhile_dropWhile_id)
    with a show "\<forall>c\<in>set s. is_space c"
      by (auto dest: set_takeWhileD)
  next
    assume "\<forall>c\<in>set s. is_space c"
    then show "\<forall>c\<in>set (dropWhile is_space s). is_space c"
      by (auto dest: set_dropWhileD)
  qed
  finally show ?thesis .
qed

lemma sub_keeps_head:
  assumes "t \<noteq> []" and "ends r t 0 = []"
  shows "sub r [] t \<noteq> [] \<and> hd (sub r [] t) = hd t"
proof -
  have f: "finditer r t = finditer_from r t (Suc 0) False"
    unfolding finditer_def by (subst finditer_from.simps) (simp add: assms(2))
  show ?thesis
  proof (cases "finditer_from r t (Suc 0) False")
    case Nil
    with f assms(1) show ?thesis by (simp add: sub_def del: finditer_from.simps)
  next
    case (Cons m ms)
    obtain s e where m: "m = (s, e)" by (cases m)
    have "m \<in> set (finditer_from r t (Suc 0) False)" unfolding Cons by simp
    from finditer_from_sound[OF this] have "Suc 0 \<le> s" by (simp add: m)
    then have "take s t \<noteq> [] \<and> hd (take s t) = hd t"
      using assms(1) by (cases t; cases s) simp_all
    then show ?thesis
      by (simp add: sub_def f Cons m slice_def del: finditer_from.simps)
  qed
qed

lemma set_ends_BolM:
  "e \<in> set (ends BolM t p) \<longleftrightarrow> (p = 0 \<or> (p \<le> length t \<and> t ! (p - 1) = newline)) \<and> e = p"
  by auto

lemma run_Nil: "p < length t \<Longrightarrow> \<not> P (t ! p) \<Longrightarrow> run P t p = 0"
  by (simp add: run_def takeWhile_eq_Nil_iff hd_drop_conv_nth)

text \<open>
  The guard of \<open>scan_unit\<close> never fires: a span starts with the keyword, which neither
  pass of \<open>cleaned_stmt\<close> removes, so no extracted span is entirely commented.
\<close>

lemma span_never_entirely_commented:
  assumes "m \<in> set (finditer STMT_RE src)"
  shows "\<not> is_entirely_commented (slice src (fst m) (snd m))"
proof -
  let ?raw = "slice src (fst m) (snd m)"
  from finditer_sound[OF assms] have k: "keyword_at src (fst m)" "fst m + 9 < snd m"
    "snd m \<le> length src"
    unfolding set_ends_STMT_RE by simp_all
  from k(1) have "is_word (src ! fst m)"
    using keyword_chars(1) by (simp add: keyword_at_def)
  moreover have "hd ?raw = src ! fst m"
    using k by (intro hd_slice) simp_all
  ultimately have w: "is_word (hd ?raw)" by simp
  have ne: "?raw \<noteq> []"
    using k by (metis length_slice length_0_conv add_lessD1 zero_less_diff less_numeral_extra(3))
  have w0: "is_word (?raw ! 0)" using w ne by (simp add: hd_conv_nth)
  then have nsp: "\<not> is_space (?raw ! 0)" using space_not_word by blast
  have "?raw ! 0 \<noteq> CHR ''*''"
    using w0 by (auto simp: is_word_def)
  moreover have "run is_space ?raw 0 = 0"
    using ne nsp by (intro run_Nil) simp_all
  ultimately have "e \<notin> set (ends STAR_RE ?raw 0)" for e
    unfolding STAR_RE_def
    by (auto simp add: set_ends_cat_Cons set_ends_BolM set_ends_Star set_ends_Chr
        simp del: ends.simps)
  then have 1: "ends STAR_RE ?raw 0 = []"
    by (cases "ends STAR_RE ?raw 0") (auto simp del: ends.simps)
  let ?ns = "strip_full_line_star_comments ?raw"
  from sub_keeps_head[OF ne 1] have ns: "?ns \<noteq> []" "hd ?ns = hd ?raw"
    by (simp_all add: strip_full_line_star_comments_def)
  have "?ns ! 0 \<noteq> CHR 0x22"
    using w ns by (auto simp: hd_conv_nth is_word_def)
  then have "e \<notin> set (ends INLINE_RE ?ns 0)" for e
    unfolding INLINE_RE_def
    by (auto simp add: set_ends_cat_Cons set_ends_Chr simp del: ends.simps)
  then have 2: "ends INLINE_RE ?ns 0 = []"
    by (cases "ends INLINE_RE ?ns 0") (auto simp del: ends.simps)
  from sub_keeps_head[OF ns(1) 2] have c: "cleaned_stmt ?raw \<noteq> []"
    "hd (cleaned_stmt ?raw) = hd ?raw"
    using ns(2) by (simp_all add: cleaned_stmt_def strip_inline_quotes_def)
  from c w have "\<exists>c\<in>set (cleaned_stmt ?raw). \<not> is_space c"
    using space_not_word by (metis hd_in_set)
  then show ?thesis
    by (simp add: is_entirely_commented_def strip_eq_Nil_iff)
qed

text \<open>
  \<open>HEX_LITERAL\<close> ends with \<open>\b\<close> right after the closing quote, which is no word
  character: a match needs a word character after the literal.
\<close>

lemma hex_literal_needs_word_after:
  assumes "e \<in> set (ends HEX_LITERAL t p)"
  shows "0 < e \<and> t ! (e - 1) = CHR 0x27 \<and> e < length t \<and> is_word (t ! e)"
proof -
  from assms obtain q where q: "q < length t" "t ! q = CHR 0x27" "e = Suc q" "boundary t e"
    unfolding HEX_LITERAL_def
    by (auto simp add: set_ends_cat_Cons set_ends_cat_Nil set_ends_Chr set_ends_WordB
        simp del: ends.simps)
  have "\<not> is_word (CHR 0x27)" by (simp add: is_word_def)
  with q have "\<not> word_before t e"
    by (simp add: word_before_def word_at_def)
  with q(4) have "word_at t e" by (simp add: boundary_def)
  with q show ?thesis by (simp add: word_at_def)
qed

section \<open>The claims\<close>

subsection \<open>C1: the obsolete option\<close>

text \<open>
  C1. For every statement the extractor yields (a match \<open>m\<close> of \<open>STMT_RE\<close> in the
  unit's body) that is not discarded as entirely commented, if its comment-stripped text
  contains the phrase CODE PAGE (any letter case, any whitespace between the two words,
  at word boundaries), then the scan appends for that statement, and the unit's result
  holds, a finding with issue type TranslateObsoleteCodepage and severity warning,
  carrying the line and the snippet of that statement.
\<close>

theorem obsolete_codepage_finding:
  assumes "m \<in> set (finditer STMT_RE (body unit))"
    and "\<not> is_entirely_commented (slice (body unit) (fst m) (snd m))"
    and "contains_phrase [''CODE'', ''PAGE''] (cleaned_stmt (slice (body unit) (fst m) (snd m)))"
  shows "\<exists>f. f \<in> set (scan_stmt unit (body unit) m) \<and> f \<in> set (rule118_findings (scan_unit unit)) \<and>
    issue_type f = ''TranslateObsoleteCodepage'' \<and> severity f = ''warning'' \<and>
    line f = line_of_offset (body unit) (int (fst m)) \<and>
    snippet f = snippet_at (body unit) (int (fst m)) (int (snd m))"
proof -
  have hc: "search HAS_CODEPAGE (cleaned_stmt (slice (body unit) (fst m) (snd m))) \<noteq> None"
    using assms(3) unfolding has_codepage_iff .
  have "(''TranslateObsoleteCodepage'', ''warning'') \<in> set (kinds (scan_stmt unit (body unit) m))"
    unfolding scan_stmt_kinds[OF assms(2)] Let_def using hc by simp
  then obtain f where f: "f \<in> set (scan_stmt unit (body unit) m)"
    and k: "issue_type f = ''TranslateObsoleteCodepage''" "severity f = ''warning''"
    unfolding kinds_iff by blast
  from scan_stmt_subset[OF assms(1) f] scan_stmt_fields[OF f] f k show ?thesis
    by blast
qed

theorem obsolete_codepage_finding_witness:
  "(0, 29) \<in> set (finditer STMT_RE (body (unit_with ''TRANSLATE lv_x CODE PAGE CP1.''))) \<and>
   contains_phrase [''CODE'', ''PAGE'']
     (cleaned_stmt (slice (body (unit_with ''TRANSLATE lv_x CODE PAGE CP1.'')) 0 29)) \<and>
   (\<exists>f. f \<in> set (rule118_findings (scan_unit (unit_with ''TRANSLATE lv_x CODE PAGE CP1.''))) \<and>
      issue_type f = ''TranslateObsoleteCodepage'' \<and> severity f = ''warning'' \<and> line f = 1)"
proof -
  let ?u = "unit_with ''TRANSLATE lv_x CODE PAGE CP1.''"
  have 1: "(0, 29) \<in> set (finditer STMT_RE (body ?u))"
    by code_simp
  have 2: "\<not> is_entirely_commented (slice (body ?u) (fst (0, 29)) (snd (0, 29)))"
    by code_simp
  have "search HAS_CODEPAGE (cleaned_stmt (slice (body ?u) (fst (0, 29)) (snd (0, 29)))) \<noteq> None"
    by code_simp
  then have 3: "contains_phrase [''CODE'', ''PAGE'']
      (cleaned_stmt (slice (body ?u) (fst (0, 29)) (snd (0, 29))))"
    by (simp only: has_codepage_iff)
  have 4: "line_of_offset (body ?u) (int (fst (0::nat, 29::nat))) = 1"
    by code_simp
  from obsolete_codepage_finding[OF 1 2 3] 1 3 4 show ?thesis
    by auto
qed

subsection \<open>C2: the missing direction\<close>

lemma from_to_eval:
  fixes S :: string
  defines "S \<equiv> ''TRANSLATE lv_x FROM CODE PAGE 'UTF-8' TO CODE PAGE 'UTF-16'.''"
  shows "finditer STMT_RE S = [(0, 60)]"
    and "\<not> is_entirely_commented (slice S 0 60)"
    and "cleaned_stmt (slice S 0 60) = S"
    and "search HAS_CODEPAGE S \<noteq> None"
    and "search LEGACY_CP S = None"
    and "search FROM_CP S \<noteq> None"
    and "search HEX_LITERAL S = None"
    and "search LIKELY_XVAR S = None"
  unfolding S_def by code_simp+

text \<open>
  C2. For every statement the extractor yields that is not discarded, a finding with
  issue type TranslateMissingFromTo is appended for it if and only if its
  comment-stripped text contains the phrase CODE PAGE and neither the phrase
  FROM CODE PAGE nor the phrase TO CODE PAGE; such a finding has severity info and is
  part of the unit's result. For a unit whose body is
  \<open>TRANSLATE lv_x FROM CODE PAGE 'UTF-8' TO CODE PAGE 'UTF-16'.\<close> the result holds exactly
  one finding, of type TranslateObsoleteCodepage and severity warning.
\<close>

theorem missing_from_to_iff:
  "(m \<in> set (finditer STMT_RE (body unit)) \<and>
    \<not> is_entirely_commented (slice (body unit) (fst m) (snd m)) \<longrightarrow>
      ((\<exists>f\<in>set (scan_stmt unit (body unit) m). issue_type f = ''TranslateMissingFromTo'') \<longleftrightarrow>
         contains_phrase [''CODE'', ''PAGE''] (cleaned_stmt (slice (body unit) (fst m) (snd m))) \<and>
         \<not> contains_phrase [''FROM'', ''CODE'', ''PAGE''] (cleaned_stmt (slice (body unit) (fst m) (snd m))) \<and>
         \<not> contains_phrase [''TO'', ''CODE'', ''PAGE''] (cleaned_stmt (slice (body unit) (fst m) (snd m)))) \<and>
      (\<forall>f\<in>set (scan_stmt unit (body unit) m). issue_type f = ''TranslateMissingFromTo'' \<longrightarrow>
         severity f = ''info'' \<and> f \<in> set (rule118_findings (scan_unit unit)))) \<and>
   (body u = ''TRANSLATE lv_x FROM CODE PAGE 'UTF-8' TO CODE PAGE 'UTF-16'.'' \<longrightarrow>
      kinds (rule118_findings (scan_unit u)) = [(''TranslateObsoleteCodepage'', ''warning'')])"
proof (intro conjI impI)
  assume a: "m \<in> set (finditer STMT_RE (body unit)) \<and>
    \<not> is_entirely_commented (slice (body unit) (fst m) (snd m))"
  let ?stmt = "cleaned_stmt (slice (body unit) (fst m) (snd m))"
  let ?fs = "scan_stmt unit (body unit) m"
  have k: "kinds ?fs =
      (if contains_phrase [''CODE'', ''PAGE''] ?stmt then [(''TranslateObsoleteCodepage'', ''warning'')] else []) @
      (if search LEGACY_CP ?stmt \<noteq> None then [(''TranslateLegacyCp1Cp2'', ''warning'')] else []) @
      (if contains_phrase [''CODE'', ''PAGE''] ?stmt \<and>
          \<not> (contains_phrase [''FROM'', ''CODE'', ''PAGE''] ?stmt \<or> contains_phrase [''TO'', ''CODE'', ''PAGE''] ?stmt)
       then [(''TranslateMissingFromTo'', ''info'')] else []) @
      (if search HEX_LITERAL ?stmt \<noteq> None \<or> search LIKELY_XVAR ?stmt \<noteq> None
       then [(''TranslateNonCharacterRisk'', ''info'')] else [])"
    unfolding has_codepage_iff[symmetric] has_from_iff[symmetric] has_to_iff[symmetric]
    using a by (intro scan_stmt_kinds[unfolded Let_def]) simp
  have "(\<exists>f\<in>set ?fs. issue_type f = ''TranslateMissingFromTo'') \<longleftrightarrow>
      ''TranslateMissingFromTo'' \<in> fst ` set (kinds ?fs)"
    by (force simp: kinds_def)
  also have "\<dots> \<longleftrightarrow> contains_phrase [''CODE'', ''PAGE''] ?stmt \<and>
      \<not> contains_phrase [''FROM'', ''CODE'', ''PAGE''] ?stmt \<and>
      \<not> contains_phrase [''TO'', ''CODE'', ''PAGE''] ?stmt"
    unfolding k by (auto simp: image_iff)
  finally show "(\<exists>f\<in>set ?fs. issue_type f = ''TranslateMissingFromTo'') \<longleftrightarrow>
      contains_phrase [''CODE'', ''PAGE''] ?stmt \<and>
      \<not> contains_phrase [''FROM'', ''CODE'', ''PAGE''] ?stmt \<and>
      \<not> contains_phrase [''TO'', ''CODE'', ''PAGE''] ?stmt" .
  show "\<forall>f\<in>set ?fs. issue_type f = ''TranslateMissingFromTo'' \<longrightarrow>
      severity f = ''info'' \<and> f \<in> set (rule118_findings (scan_unit unit))"
  proof (intro ballI impI conjI)
    fix f assume f: "f \<in> set ?fs" and it: "issue_type f = ''TranslateMissingFromTo''"
    from f have "(issue_type f, severity f) \<in> set (kinds ?fs)"
      by (auto simp: kinds_def)
    then show "severity f = ''info''"
      unfolding k using it by (auto split: if_splits)
    from a f show "f \<in> set (rule118_findings (scan_unit unit))"
      using scan_stmt_subset by blast
  qed
next
  assume b: "body u = ''TRANSLATE lv_x FROM CODE PAGE 'UTF-8' TO CODE PAGE 'UTF-16'.''"
  show "kinds (rule118_findings (scan_unit u)) = [(''TranslateObsoleteCodepage'', ''warning'')]"
    using kinds_single_stmt[of u "(0, 60)", OF _ _ refl] from_to_eval
    by (simp add: b)
qed

theorem missing_from_to_iff_witness:
  "(0, 24) \<in> set (finditer STMT_RE (body (unit_with ''TRANSLATE a CODE PAGE b.''))) \<and>
   \<not> is_entirely_commented (slice (body (unit_with ''TRANSLATE a CODE PAGE b.'')) 0 24) \<and>
   (\<exists>f\<in>set (rule118_findings (scan_unit (unit_with ''TRANSLATE a CODE PAGE b.''))).
      issue_type f = ''TranslateMissingFromTo'' \<and> severity f = ''info'') \<and>
   kinds (rule118_findings (scan_unit
     (unit_with ''TRANSLATE lv_x FROM CODE PAGE 'UTF-8' TO CODE PAGE 'UTF-16'.''))) =
     [(''TranslateObsoleteCodepage'', ''warning'')]"
proof -
  let ?S = "''TRANSLATE a CODE PAGE b.''"
  have 1: "(0, 24) \<in> set (finditer STMT_RE ?S)"
    by code_simp
  have 2: "\<not> is_entirely_commented (slice ?S 0 24)"
    by code_simp
  have c: "cleaned_stmt (slice ?S 0 24) = ?S"
    by code_simp
  have "search HAS_CODEPAGE ?S \<noteq> None" and "search FROM_CP ?S = None"
    and "search TO_CP ?S = None"
    by code_simp+
  then have 3: "contains_phrase [''CODE'', ''PAGE''] ?S"
    "\<not> contains_phrase [''FROM'', ''CODE'', ''PAGE''] ?S"
    "\<not> contains_phrase [''TO'', ''CODE'', ''PAGE''] ?S"
    unfolding has_codepage_iff[symmetric] has_from_iff[symmetric] has_to_iff[symmetric]
    by simp_all
  from missing_from_to_iff[of "(0, 24)" "unit_with ?S"
      "unit_with ''TRANSLATE lv_x FROM CODE PAGE 'UTF-8' TO CODE PAGE 'UTF-16'.''"]
    1 2 3 c
  show ?thesis
    unfolding body_unit_with by (simp only: fst_conv snd_conv) blast
qed

subsection \<open>C3: the legacy code pages\<close>

lemma cp1_eval:
  fixes S :: string
  defines "S \<equiv> ''* comment\<newline>TRANSLATE lv_x CODE PAGE CP1.''"
  shows "finditer STMT_RE S = [(10, 39)]"
    and "\<not> is_entirely_commented (slice S 10 39)"
    and "cleaned_stmt (slice S 10 39) = ''TRANSLATE lv_x CODE PAGE CP1.''"
  unfolding S_def by code_simp+

lemma cp1_stmt_eval:
  fixes S :: string
  defines "S \<equiv> ''TRANSLATE lv_x CODE PAGE CP1.''"
  shows "search HAS_CODEPAGE S \<noteq> None"
    and "search LEGACY_CP S \<noteq> None"
    and "search FROM_CP S = None"
    and "search TO_CP S = None"
    and "search HEX_LITERAL S = None"
    and "search LIKELY_XVAR S = None"
  unfolding S_def by code_simp+

text \<open>
  C3. For a unit whose body is \<open>* comment\<close>, a newline, then
  \<open>TRANSLATE lv_x CODE PAGE CP1.\<close>, the extractor yields exactly one statement and the
  result holds exactly three findings, in this order: TranslateObsoleteCodepage,
  TranslateLegacyCp1Cp2 (both warnings), TranslateMissingFromTo (info). For every
  extracted statement that is not discarded and whose comment-stripped text contains
  the phrase CODE PAGE CP1 or the phrase CODE PAGE CP2, the result holds both a
  TranslateObsoleteCodepage and a TranslateLegacyCp1Cp2 finding of that statement.
\<close>

theorem legacy_cp_findings:
  "(body u = ''* comment\<newline>TRANSLATE lv_x CODE PAGE CP1.'' \<longrightarrow>
      finditer STMT_RE (body u) = [(10, 39)] \<and>
      kinds (rule118_findings (scan_unit u)) =
        [(''TranslateObsoleteCodepage'', ''warning''), (''TranslateLegacyCp1Cp2'', ''warning''),
         (''TranslateMissingFromTo'', ''info'')]) \<and>
   (m \<in> set (finditer STMT_RE (body unit)) \<and>
    \<not> is_entirely_commented (slice (body unit) (fst m) (snd m)) \<and>
    (contains_phrase [''CODE'', ''PAGE'', ''CP1''] (cleaned_stmt (slice (body unit) (fst m) (snd m))) \<or>
     contains_phrase [''CODE'', ''PAGE'', ''CP2''] (cleaned_stmt (slice (body unit) (fst m) (snd m)))) \<longrightarrow>
      (\<exists>f\<in>set (scan_stmt unit (body unit) m). f \<in> set (rule118_findings (scan_unit unit)) \<and>
         issue_type f = ''TranslateObsoleteCodepage'' \<and> severity f = ''warning'') \<and>
      (\<exists>f\<in>set (scan_stmt unit (body unit) m). f \<in> set (rule118_findings (scan_unit unit)) \<and>
         issue_type f = ''TranslateLegacyCp1Cp2'' \<and> severity f = ''warning''))"
proof (intro conjI impI)
  assume b: "body u = ''* comment\<newline>TRANSLATE lv_x CODE PAGE CP1.''"
  show "finditer STMT_RE (body u) = [(10, 39)]"
    unfolding b by (rule cp1_eval(1))
  show "kinds (rule118_findings (scan_unit u)) =
        [(''TranslateObsoleteCodepage'', ''warning''), (''TranslateLegacyCp1Cp2'', ''warning''),
         (''TranslateMissingFromTo'', ''info'')]"
    using kinds_single_stmt[of u "(10, 39)", OF _ _ refl] cp1_eval cp1_stmt_eval
    by (simp add: b)
next
  assume a: "m \<in> set (finditer STMT_RE (body unit)) \<and>
    \<not> is_entirely_commented (slice (body unit) (fst m) (snd m)) \<and>
    (contains_phrase [''CODE'', ''PAGE'', ''CP1''] (cleaned_stmt (slice (body unit) (fst m) (snd m))) \<or>
     contains_phrase [''CODE'', ''PAGE'', ''CP2''] (cleaned_stmt (slice (body unit) (fst m) (snd m))))"
  let ?stmt = "cleaned_stmt (slice (body unit) (fst m) (snd m))"
  let ?fs = "scan_stmt unit (body unit) m"
  from a have m: "m \<in> set (finditer STMT_RE (body unit))"
    and nc: "\<not> is_entirely_commented (slice (body unit) (fst m) (snd m))"
    by simp_all
  from a have lc: "search LEGACY_CP ?stmt \<noteq> None"
    unfolding legacy_cp_iff by blast
  from a have "contains_phrase [''CODE'', ''PAGE''] ?stmt"
    using phrase3_phrase2 by blast
  then have hc: "search HAS_CODEPAGE ?stmt \<noteq> None"
    unfolding has_codepage_iff .
  have "(''TranslateObsoleteCodepage'', ''warning'') \<in> set (kinds ?fs)"
    and "(''TranslateLegacyCp1Cp2'', ''warning'') \<in> set (kinds ?fs)"
    unfolding scan_stmt_kinds[OF nc] Let_def using hc lc by simp_all
  then show "\<exists>f\<in>set ?fs. f \<in> set (rule118_findings (scan_unit unit)) \<and>
         issue_type f = ''TranslateObsoleteCodepage'' \<and> severity f = ''warning''"
    and "\<exists>f\<in>set ?fs. f \<in> set (rule118_findings (scan_unit unit)) \<and>
         issue_type f = ''TranslateLegacyCp1Cp2'' \<and> severity f = ''warning''"
    unfolding kinds_iff using scan_stmt_subset[OF m] by blast+
qed

theorem legacy_cp_findings_witness:
  "(0, 27) \<in> set (finditer STMT_RE (body (unit_with ''TRANSLATE a CODE  page cp2.''))) \<and>
   contains_phrase [''CODE'', ''PAGE'', ''CP2'']
     (cleaned_stmt (slice (body (unit_with ''TRANSLATE a CODE  page cp2.'')) 0 27)) \<and>
   (\<exists>f\<in>set (rule118_findings (scan_unit (unit_with ''TRANSLATE a CODE  page cp2.''))).
      issue_type f = ''TranslateLegacyCp1Cp2'' \<and> severity f = ''warning'') \<and>
   kinds (rule118_findings (scan_unit (unit_with ''* comment\<newline>TRANSLATE lv_x CODE PAGE CP1.''))) =
     [(''TranslateObsoleteCodepage'', ''warning''), (''TranslateLegacyCp1Cp2'', ''warning''),
      (''TranslateMissingFromTo'', ''info'')]"
proof -
  let ?S = "''TRANSLATE a CODE  page cp2.''"
  have 1: "(0, 27) \<in> set (finditer STMT_RE ?S)"
    by code_simp
  have 2: "\<not> is_entirely_commented (slice ?S 0 27)"
    by code_simp
  have c: "cleaned_stmt (slice ?S 0 27) = ?S"
    by code_simp
  have "search LEGACY_CP ?S \<noteq> None"
    by code_simp
  moreover have "\<not> contains_phrase [''CODE'', ''PAGE'', ''CP1''] ?S"
  proof -
    have "search (cat [WordB, StrI ''CODE'', Plus is_space, StrI ''PAGE'', Plus is_space,
        StrI ''CP1'', WordB]) ?S = None"
      by code_simp
    then show ?thesis
      using search_spans[OF set_ends_phrase3, of "''CODE''" "''PAGE''" "''CP1''" ?S]
      by (simp add: is_word_def)
  qed
  ultimately have 3: "contains_phrase [''CODE'', ''PAGE'', ''CP2''] ?S"
    unfolding legacy_cp_iff by blast
  from legacy_cp_findings[of "unit_with ''* comment\<newline>TRANSLATE lv_x CODE PAGE CP1.''"
      "(0, 27)" "unit_with ?S"] 1 2 3 c
  show ?thesis
    unfolding body_unit_with by (simp only: fst_conv snd_conv) blast
qed

subsection \<open>C4: hex literals\<close>

lemma hex_eval:
  fixes S :: string
  defines "S \<equiv> ''TRANSLATE lv_x USING X'1A2B'.''"
  shows "finditer STMT_RE S = [(0, 29)]"
    and "\<not> is_entirely_commented (slice S 0 29)"
    and "cleaned_stmt (slice S 0 29) = S"
    and "search HAS_CODEPAGE S = None"
    and "search LEGACY_CP S = None"
    and "search HEX_LITERAL S = None"
    and "search LIKELY_XVAR S = None"
  unfolding S_def by code_simp+

text \<open>
  C4. The claim fails on the code. The body \<open>TRANSLATE lv_x USING X'1A2B'.\<close> is one
  statement, its comment-stripped text holds the hex literal \<open>X'1A2B'\<close> and no CODE PAGE
  phrase, and the scan reports no finding at all, where the claim expects exactly one
  TranslateNonCharacterRisk finding.
\<close>

theorem hex_literal_unreported:
  "finditer STMT_RE ''TRANSLATE lv_x USING X'1A2B'.'' = [(0, 29)] \<and>
   cleaned_stmt (slice ''TRANSLATE lv_x USING X'1A2B'.'' 0 29) = ''TRANSLATE lv_x USING X'1A2B'.'' \<and>
   search HAS_CODEPAGE ''TRANSLATE lv_x USING X'1A2B'.'' = None \<and>
   search HEX_LITERAL ''TRANSLATE lv_x USING X'1A2B'.'' = None \<and>
   rule118_findings (scan_unit (unit_with ''TRANSLATE lv_x USING X'1A2B'.'')) = []"
proof -
  have "kinds (rule118_findings (scan_unit (unit_with ''TRANSLATE lv_x USING X'1A2B'.''))) = []"
    using kinds_single_stmt[of "unit_with ''TRANSLATE lv_x USING X'1A2B'.''" "(0, 29)", OF _ _ refl]
      hex_eval
    by (simp add: body_unit_with)
  then have "rule118_findings (scan_unit (unit_with ''TRANSLATE lv_x USING X'1A2B'.'')) = []"
    by (simp add: kinds_def)
  with hex_eval show ?thesis
    by simp
qed

subsection \<open>C5: spans that are entirely commented\<close>



lemma commented_eval:
  fixes S :: string
  defines "S \<equiv> ''* TRANSLATE lv_x CODE PAGE 'X'.''"
  shows "is_entirely_commented S"
    and "finditer STMT_RE S = [(2, 31)]"
    and "\<not> is_entirely_commented (slice S 2 31)"
    and "cleaned_stmt (slice S 2 31) = ''TRANSLATE lv_x CODE PAGE 'X'.''"
  unfolding S_def by code_simp+

lemma commented_stmt_eval:
  fixes S :: string
  defines "S \<equiv> ''TRANSLATE lv_x CODE PAGE 'X'.''"
  shows "search HAS_CODEPAGE S \<noteq> None"
    and "search LEGACY_CP S = None"
    and "search FROM_CP S = None"
    and "search TO_CP S = None"
    and "search HEX_LITERAL S = None"
    and "search LIKELY_XVAR S = None"
  unfolding S_def by code_simp+

text \<open>
  A different matter from C5: a statement behind the star of a comment line is
  extracted without the star, so its span is not entirely commented and it is
  reported like any other statement.
\<close>

lemma commented_line_still_reported:
  "is_entirely_commented ''* TRANSLATE lv_x CODE PAGE 'X'.'' \<and>
   finditer STMT_RE ''* TRANSLATE lv_x CODE PAGE 'X'.'' = [(2, 31)] \<and>
   kinds (rule118_findings (scan_unit (unit_with ''* TRANSLATE lv_x CODE PAGE 'X'.''))) =
     [(''TranslateObsoleteCodepage'', ''warning''), (''TranslateMissingFromTo'', ''info'')]"
proof -
  have "kinds (rule118_findings (scan_unit (unit_with ''* TRANSLATE lv_x CODE PAGE 'X'.''))) =
     [(''TranslateObsoleteCodepage'', ''warning''), (''TranslateMissingFromTo'', ''info'')]"
    using kinds_single_stmt[of "unit_with ''* TRANSLATE lv_x CODE PAGE 'X'.''" "(2, 31)", OF _ _ refl]
      commented_eval commented_stmt_eval
    by (simp add: body_unit_with)
  with commented_eval show ?thesis
    by simp
qed

subsection \<open>C6: the spans of the statement extractor\<close>

text \<open>
  C6. For every body, each span the extractor yields begins at a whole-word occurrence
  of the keyword TRANSLATE (in any letter case) and its last character is the first
  \<open>.\<close> after its start; each span ends before the next one begins, so that spans do
  not overlap; the spans come in strictly increasing order of their start offsets; and
  a keyword occurrence with no \<open>.\<close> between it and the end of the text is the start
  of no span.
\<close>

theorem statement_spans:
  "(\<forall>m\<in>set (finditer STMT_RE src).
      keyword_at src (fst m) \<and> fst m + 9 < snd m \<and> snd m \<le> length src \<and>
      src ! (snd m - 1) = CHR ''.'' \<and> CHR ''.'' \<notin> set (slice src (fst m) (snd m - 1))) \<and>
   sorted_wrt (\<lambda>a b. snd a \<le> fst b) (finditer STMT_RE src) \<and>
   sorted_wrt (\<lambda>a b. fst a < fst b) (finditer STMT_RE src) \<and>
   (\<forall>p. keyword_at src p \<and> CHR ''.'' \<notin> set (drop p src) \<longrightarrow> p \<notin> fst ` set (finditer STMT_RE src))"
proof (intro conjI ballI allI impI)
  fix m assume "m \<in> set (finditer STMT_RE src)"
  from finditer_sound[OF this] have "snd m \<in> set (ends STMT_RE src (fst m))"
    by simp
  then show "keyword_at src (fst m)" and "fst m + 9 < snd m" and "snd m \<le> length src"
    and "src ! (snd m - 1) = CHR ''.''" and "CHR ''.'' \<notin> set (slice src (fst m) (snd m - 1))"
    unfolding set_ends_STMT_RE by simp_all
next
  show 1: "sorted_wrt (\<lambda>a b. snd a \<le> fst b) (finditer STMT_RE src)"
    by (rule finditer_sorted)
  have "\<forall>m\<in>set (finditer STMT_RE src). fst m < snd m"
    using finditer_sound[of _ STMT_RE src] unfolding set_ends_STMT_RE by fastforce
  then have "\<And>a b. a \<in> set (finditer STMT_RE src) \<Longrightarrow> b \<in> set (finditer STMT_RE src) \<Longrightarrow>
      snd a \<le> fst b \<Longrightarrow> fst a < fst b"
    by fastforce
  from sorted_wrt_mono_rel[of "finditer STMT_RE src", OF this 1]
  show "sorted_wrt (\<lambda>a b. fst a < fst b) (finditer STMT_RE src)" .
next
  fix p assume a: "keyword_at src p \<and> CHR ''.'' \<notin> set (drop p src)"
  show "p \<notin> fst ` set (finditer STMT_RE src)"
  proof
    assume "p \<in> fst ` set (finditer STMT_RE src)"
    then obtain m where m: "m \<in> set (finditer STMT_RE src)" and p: "p = fst m"
      by blast
    from finditer_sound[OF m] have e: "p + 9 < snd m" "snd m \<le> length src"
      "src ! (snd m - 1) = CHR ''.''"
      unfolding set_ends_STMT_RE p by simp_all
    have "drop p src ! (snd m - 1 - p) = src ! (snd m - 1)"
      using e by simp
    moreover have "snd m - 1 - p < length (drop p src)"
      using e by simp
    ultimately have "CHR ''.'' \<in> set (drop p src)"
      using e(3) by (metis nth_mem)
    with a show False by simp
  qed
qed

theorem statement_spans_witness:
  "finditer STMT_RE ''x translate a. TRANSLATE b'' = [(2, 14)] \<and>
   keyword_at ''x translate a. TRANSLATE b'' 2 \<and>
   ''x translate a. TRANSLATE b'' ! 13 = CHR ''.'' \<and>
   keyword_at ''x translate a. TRANSLATE b'' 15 \<and>
   15 \<notin> fst ` set (finditer STMT_RE ''x translate a. TRANSLATE b'')"
proof -
  let ?S = "''x translate a. TRANSLATE b''"
  have 1: "finditer STMT_RE ?S = [(2, 14)]"
    by code_simp
  have 2: "keyword_at ?S 15 \<and> CHR ''.'' \<notin> set (drop 15 ?S)"
    by code_simp
  from statement_spans[of ?S] 1 2 show ?thesis
    by (simp del: upt_Suc)
qed

subsection \<open>C7: empty and absent bodies\<close>

lemma finditer_empty: "finditer STMT_RE [] = []"
  by code_simp

text \<open>
  C7. For every unit whose code is absent or empty, the extractor yields no statement
  and the result holds no finding; the result is an ordinary scan result that carries
  the unit's own fields. \<open>scan_unit\<close> is a total function with no error branch: its
  only loop, \<open>finditer_from\<close>, is defined with a termination proof, so the scan
  returns a result for every body.
\<close>

theorem empty_body_no_findings:
  assumes "code unit = None \<or> code unit = Some []"
  shows "finditer STMT_RE (body unit) = [] \<and>
    scan_unit unit = \<lparr>pgm_name = pgm_name unit, inc_name = inc_name unit, type = type unit,
      name = name unit, start_line = start_line unit, end_line = end_line unit,
      code = code unit, rule118_findings = []\<rparr>"
proof -
  from assms have b: "body unit = []"
    by (auto simp: body_def)
  then show ?thesis
    by (simp add: scan_unit_def Let_def finditer_empty)
qed

theorem empty_body_no_findings_witness:
  "rule118_findings (scan_unit \<lparr>pgm_name = ''ZPROG'', inc_name = ''ZINC'', type = ''FORM'',
     name = Some ''CONVERT'', start_line = Some 1, end_line = Some 9, code = None\<rparr>) = [] \<and>
   rule118_findings (scan_unit (unit_with [])) = []"
proof -
  have 1: "code \<lparr>pgm_name = ''ZPROG'', inc_name = ''ZINC'', type = ''FORM'',
     name = Some ''CONVERT'', start_line = Some 1, end_line = Some 9, code = None\<rparr> = None \<or>
     code \<lparr>pgm_name = ''ZPROG'', inc_name = ''ZINC'', type = ''FORM'',
     name = Some ''CONVERT'', start_line = Some 1, end_line = Some 9, code = None\<rparr> = Some []"
    by simp
  have 2: "code (unit_with []) = None \<or> code (unit_with []) = Some []"
    by (simp add: unit_with_def)
  from empty_body_no_findings[OF 1] empty_body_no_findings[OF 2] show ?thesis
    by simp
qed

subsection \<open>C8: the full-line comment pass\<close>

text \<open>
  C8. The claim fails on the code. In the text \<open>a\<close>, two newlines, \<open>* c\<close> the match
  starts at the empty second line, because \<open>\s*\<close> runs over its newline: the pass
  returns \<open>a\<close> and one newline, so one of the two newlines is lost.
\<close>

theorem star_comment_strip_loses_newline:
  "strip_full_line_star_comments (''a'' @ [newline, newline] @ ''* c'') = ''a'' @ [newline] \<and>
   count_list (''a'' @ [newline, newline] @ ''* c'') newline = 2 \<and>
   count_list (strip_full_line_star_comments (''a'' @ [newline, newline] @ ''* c'')) newline = 1"
  by code_simp

subsection \<open>C9: snippets\<close>

lemma slice_min: "slice t (min a (length t)) b = slice t a b"
  by (cases "a \<le> length t") (simp_all add: slice_def min_def)

lemma not_newline_replace:
  "newline \<notin> set (replace newline [CHR 0x5C, CHR ''n''] s)"
  by (induction s) (auto simp: replace_def newline_def)

text \<open>
  C9. For every text and offsets \<open>0 \<le> start \<le> end\<close>, with
  \<open>s = max(0, start - 60)\<close> and \<open>e = min(len(text), end + 60)\<close>, \<open>snippet_at\<close> returns
  the substring of the text from offset \<open>s\<close> to offset \<open>e\<close> in which every newline
  character is replaced by the two characters backslash and \<open>n\<close>; the snippet contains
  no newline character; and the window lies within the text: \<open>0 \<le> s\<close> and
  \<open>e \<le> len(text)\<close>, with \<open>s \<le> e\<close> whenever \<open>start\<close> is an offset of the text.
\<close>

theorem snippet_at_window:
  assumes "0 \<le> start" and "start \<le> end"
  shows "snippet_at text start end =
      replace newline [CHR 0x5C, CHR ''n'']
        (slice text (nat (max 0 (start - 60))) (nat (min (int (length text)) (end + 60)))) \<and>
    newline \<notin> set (snippet_at text start end) \<and>
    0 \<le> max 0 (start - 60) \<and>
    0 \<le> min (int (length text)) (end + 60) \<and>
    min (int (length text)) (end + 60) \<le> int (length text) \<and>
    (start \<le> int (length text) \<longrightarrow> max 0 (start - 60) \<le> min (int (length text)) (end + 60))"
proof -
  let ?s = "max 0 (start - 60)"
  let ?e = "min (int (length text)) (end + 60)"
  have s: "0 \<le> ?s" by simp
  have e: "0 \<le> ?e" using assms by simp
  have "py_index text ?s = min (nat ?s) (length text)"
    using s by (simp add: py_index_def)
  moreover have "py_index text ?e = nat ?e"
  proof -
    have "\<not> ?e < 0" using e by linarith
    moreover have "min (nat ?e) (length text) = nat ?e" by simp
    ultimately show ?thesis unfolding py_index_def by (simp only: if_False)
  qed
  ultimately have "py_slice text ?s ?e = slice text (nat ?s) (nat ?e)"
    by (simp add: py_slice_def slice_min)
  then have eq: "snippet_at text start end =
      replace newline [CHR 0x5C, CHR ''n''] (slice text (nat ?s) (nat ?e))"
    by (simp add: snippet_at_def Let_def)
  have "newline \<notin> set (snippet_at text start end)"
    unfolding eq by (rule not_newline_replace)
  with eq s e assms show ?thesis
    by auto
qed

theorem snippet_at_window_witness:
  "snippet_at (''ab'' @ [newline] @ ''cd'') 1 4 = ''ab'' @ [CHR 0x5C, CHR ''n''] @ ''cd'' \<and>
   newline \<notin> set (snippet_at (''ab'' @ [newline] @ ''cd'') 1 4)"
proof -
  have 1: "(0::int) \<le> 1" and 2: "(1::int) \<le> 4"
    by simp_all
  have "replace newline [CHR 0x5C, CHR ''n'']
        (slice (''ab'' @ [newline] @ ''cd'') (nat (max 0 (1 - 60)))
          (nat (min (int (length (''ab'' @ [newline] @ ''cd''))) (4 + 60)))) =
      ''ab'' @ [CHR 0x5C, CHR ''n''] @ ''cd''"
    by code_simp
  with snippet_at_window[OF 1 2, of "''ab'' @ [newline] @ ''cd''"] show ?thesis
    by (simp add: newline_def)
qed

subsection \<open>C10: identifiers of binary data\<close>

text \<open>
  C10. For every extracted statement that is not discarded and whose comment-stripped
  text contains a whole word beginning with \<open>lx_\<close>, \<open>xstr\<close> or \<open>xstring\<close> (in any
  letter case), the result holds a finding of that statement with issue type
  TranslateNonCharacterRisk and severity info; nothing is assumed about CODE PAGE
  phrases or hex literals in the statement.
\<close>

theorem xvar_identifier_finding:
  assumes "m \<in> set (finditer STMT_RE (body unit))"
    and "\<not> is_entirely_commented (slice (body unit) (fst m) (snd m))"
    and "pfx \<in> {''lx_'', ''xstr'', ''xstring''}"
    and "contains_identifier pfx (cleaned_stmt (slice (body unit) (fst m) (snd m)))"
  shows "\<exists>f. f \<in> set (scan_stmt unit (body unit) m) \<and> f \<in> set (rule118_findings (scan_unit unit)) \<and>
    issue_type f = ''TranslateNonCharacterRisk'' \<and> severity f = ''info'' \<and>
    line f = line_of_offset (body unit) (int (fst m)) \<and>
    snippet f = snippet_at (body unit) (int (fst m)) (int (snd m))"
proof -
  have x: "search LIKELY_XVAR (cleaned_stmt (slice (body unit) (fst m) (snd m))) \<noteq> None"
    using likely_xvar_match[OF assms(4,3)] .
  have "(''TranslateNonCharacterRisk'', ''info'') \<in> set (kinds (scan_stmt unit (body unit) m))"
    unfolding scan_stmt_kinds[OF assms(2)] Let_def using x by simp
  then obtain f where f: "f \<in> set (scan_stmt unit (body unit) m)"
    and k: "issue_type f = ''TranslateNonCharacterRisk''" "severity f = ''info''"
    unfolding kinds_iff by blast
  from scan_stmt_subset[OF assms(1) f] scan_stmt_fields[OF f] f k show ?thesis
    by blast
qed

theorem xvar_identifier_finding_witness:
  "(0, 31) \<in> set (finditer STMT_RE (body (unit_with ''TRANSLATE LX_Buf TO UPPER CASE.''))) \<and>
   contains_identifier ''lx_''
     (cleaned_stmt (slice (body (unit_with ''TRANSLATE LX_Buf TO UPPER CASE.'')) 0 31)) \<and>
   search HAS_CODEPAGE (cleaned_stmt (slice (body (unit_with ''TRANSLATE LX_Buf TO UPPER CASE.'')) 0 31)) = None \<and>
   search HEX_LITERAL (cleaned_stmt (slice (body (unit_with ''TRANSLATE LX_Buf TO UPPER CASE.'')) 0 31)) = None \<and>
   (\<exists>f\<in>set (rule118_findings (scan_unit (unit_with ''TRANSLATE LX_Buf TO UPPER CASE.''))).
      issue_type f = ''TranslateNonCharacterRisk'' \<and> severity f = ''info'')"
proof -
  let ?S = "''TRANSLATE LX_Buf TO UPPER CASE.''"
  have 1: "(0, 31) \<in> set (finditer STMT_RE ?S)"
    by code_simp
  have 2: "\<not> is_entirely_commented (slice ?S 0 31)"
    by code_simp
  have c: "cleaned_stmt (slice ?S 0 31) = ?S"
    by code_simp
  have 3: "''lx_'' \<in> {''lx_'', ''xstr'', ''xstring''}"
    by simp
  have "?S = ''TRANSLATE '' @ ''LX_Buf'' @ '' TO UPPER CASE.'' \<and>
      (\<forall>c\<in>set ''LX_Buf''. is_word c) \<and> length ''lx_'' \<le> length ''LX_Buf'' \<and>
      map lower (take (length ''lx_'') ''LX_Buf'') = map lower ''lx_'' \<and>
      (''TRANSLATE '' = [] \<or> \<not> is_word (last ''TRANSLATE '')) \<and>
      ('' TO UPPER CASE.'' = [] \<or> \<not> is_word (hd '' TO UPPER CASE.''))"
    by code_simp
  then have 4: "contains_identifier ''lx_'' ?S"
    unfolding contains_identifier_def by blast
  have 5: "search HAS_CODEPAGE ?S = None" "search HEX_LITERAL ?S = None"
    by code_simp+
  from xvar_identifier_finding[of "(0, 31)" "unit_with ?S" "''lx_''"] 1 2 3 4 5 c
  show ?thesis
    unfolding body_unit_with by (simp only: fst_conv snd_conv) blast
qed

end
